theory Spec2Isabelle
  imports Complex_Main
begin

section \<open>Python values\<close>

text \<open>
  The values that flow through \<^verbatim>\<open>vectorbt/utils/decorators.py\<close>: results of the decorated
  functions, call arguments, and the entries of the keyword configuration attached to a
  member. A finite float is represented by the rational it denotes (Python compares an
  int with a float exactly); \<open>VType c\<close> is the class object with identifier \<open>c\<close>.
\<close>

datatype pyval =
    VNone
  | VBool bool
  | VInt int
  | VFloat rat
  | VStr string
  | VTuple "pyval list"
  | VList "pyval list"
  | VType nat

datatype pytype = TNoneType | TBool | TInt | TFloat | TStr | TTuple | TList | TType

text \<open>\<^verbatim>\<open>type(v)\<close>\<close>

fun py_type :: "pyval \<Rightarrow> pytype" where
  "py_type VNone = TNoneType"
| "py_type (VBool b) = TBool"
| "py_type (VInt i) = TInt"
| "py_type (VFloat q) = TFloat"
| "py_type (VStr s) = TStr"
| "py_type (VTuple xs) = TTuple"
| "py_type (VList xs) = TList"
| "py_type (VType c) = TType"

text \<open>The number a numeric value denotes (\<^verbatim>\<open>bool\<close> is a subclass of \<^verbatim>\<open>int\<close>).\<close>

fun num_of :: "pyval \<Rightarrow> rat option" where
  "num_of (VBool b) = Some (if b then 1 else 0)"
| "num_of (VInt i) = Some (of_int i)"
| "num_of (VFloat q) = Some q"
| "num_of v = None"

text \<open>\<^verbatim>\<open>a == b\<close>: numbers by value across types, sequences element by element.\<close>

primrec py_eq :: "pyval \<Rightarrow> pyval \<Rightarrow> bool"
  and py_eqs :: "pyval list \<Rightarrow> pyval list \<Rightarrow> bool" where
  "py_eq VNone b = (b = VNone)"
| "py_eq (VBool x) b = (num_of b = Some (if x then 1 else 0))"
| "py_eq (VInt i) b = (num_of b = Some (of_int i))"
| "py_eq (VFloat q) b = (num_of b = Some q)"
| "py_eq (VStr s) b = (b = VStr s)"
| "py_eq (VTuple xs) b = (case b of VTuple ys \<Rightarrow> py_eqs xs ys | _ \<Rightarrow> False)"
| "py_eq (VList xs) b = (case b of VList ys \<Rightarrow> py_eqs xs ys | _ \<Rightarrow> False)"
| "py_eq (VType c) b = (b = VType c)"
| "py_eqs [] ys = (ys = [])"
| "py_eqs (x # xs) ys = (case ys of [] \<Rightarrow> False | y # ys' \<Rightarrow> py_eq x y \<and> py_eqs xs ys')"

text \<open>\<^verbatim>\<open>x in (e1, ..., en)\<close>\<close>

fun py_in :: "pyval \<Rightarrow> pyval list \<Rightarrow> bool" where
  "py_in x [] = False"
| "py_in x (e # es) = (py_eq x e \<or> py_in x es)"

text \<open>Whether \<^verbatim>\<open>hash(v)\<close> succeeds: a list is unhashable, a tuple hashes its elements.\<close>

primrec py_hashable :: "pyval \<Rightarrow> bool"
  and py_hashables :: "pyval list \<Rightarrow> bool" where
  "py_hashable VNone = True"
| "py_hashable (VBool b) = True"
| "py_hashable (VInt i) = True"
| "py_hashable (VFloat q) = True"
| "py_hashable (VStr s) = True"
| "py_hashable (VTuple xs) = py_hashables xs"
| "py_hashable (VList xs) = False"
| "py_hashable (VType c) = True"
| "py_hashables [] = True"
| "py_hashables (x # xs) = (py_hashable x \<and> py_hashables xs)"

datatype exn = TypeError | AttributeError | RecursionError | AssertionError | Raised nat

section \<open>The keyed cache of \<^verbatim>\<open>functools.lru_cache\<close>\<close>

text \<open>
  \<^verbatim>\<open>cached_method\<close> stores, per object, the function returned by
  \<^verbatim>\<open>lru_cache(maxsize=..., typed=...)(partial_func)\<close>. The model follows the Python
  implementation in \<^verbatim>\<open>functools.py\<close> of the standard library.

  A key is what \<^verbatim>\<open>_make_key(args, kwds, typed)\<close> returns: the flat sequence of the
  positional arguments, then (when there are keyword arguments) the private marker object
  and each name and value in call order, then (when typed) the types of the values; or the
  bare argument when the call has a single argument whose type is exactly int or str.
\<close>

datatype key_part = KArg pyval | KMark | KType pytype

datatype cache_key = Bare pyval | HashedSeq "key_part list"

fun part_eq :: "key_part \<Rightarrow> key_part \<Rightarrow> bool" where
  "part_eq (KArg a) (KArg b) = py_eq a b"
| "part_eq KMark KMark = True"
| "part_eq (KType s) (KType t) = (s = t)"
| "part_eq p q = False"

fun key_eq :: "cache_key \<Rightarrow> cache_key \<Rightarrow> bool" where
  "key_eq (Bare a) (Bare b) = py_eq a b"
| "key_eq (HashedSeq ps) (HashedSeq qs) = list_all2 part_eq ps qs"
| "key_eq k k' = False"

fun part_hashable :: "key_part \<Rightarrow> bool" where
  "part_hashable (KArg a) = py_hashable a"
| "part_hashable p = True"

fun key_hashable :: "cache_key \<Rightarrow> bool" where
  "key_hashable (Bare a) = py_hashable a"
| "key_hashable (HashedSeq ps) = list_all part_hashable ps"

definition kwd_items :: "(string \<times> pyval) list \<Rightarrow> key_part list" where
  "kwd_items kwds = concat (map (\<lambda>(k, v). [KArg (VStr k), KArg v]) kwds)"

definition make_key :: "pyval list \<Rightarrow> (string \<times> pyval) list \<Rightarrow> bool \<Rightarrow> cache_key" where
  "make_key args kwds typed =
     (let key = map KArg args @ (if kwds \<noteq> [] then KMark # kwd_items kwds else [])
      in if typed then
           HashedSeq (key @ map (\<lambda>v. KType (py_type v)) args
                          @ (if kwds \<noteq> [] then map (\<lambda>(k, v). KType (py_type v)) kwds else []))
         else (case key of
                 [KArg v] \<Rightarrow> if py_type v = TInt \<or> py_type v = TStr then Bare v
                            else HashedSeq key
               | _ \<Rightarrow> HashedSeq key))"

text \<open>
  The cache itself: \<open>maxsize\<close> (\<open>None\<close> is unbounded), \<open>typed\<close>, and the stored results
  ordered from the least recently used to the most recently used. The flag
  \<^verbatim>\<open>full\<close> of the implementation is set once the number of entries has reached
  \<open>maxsize\<close> and entries are never removed without one being added, so it is read off the
  length here.
\<close>

record lru =
  maxsize :: "int option"
  typed :: bool
  entries :: "(cache_key \<times> pyval) list"

text \<open>\<^verbatim>\<open>lru_cache(maxsize, typed)\<close>: a negative bound is replaced by 0.\<close>

definition new_lru :: "int option \<Rightarrow> bool \<Rightarrow> lru" where
  "new_lru ms t = \<lparr> maxsize = map_option (max 0) ms, typed = t, entries = [] \<rparr>"

fun cache_get :: "cache_key \<Rightarrow> (cache_key \<times> pyval) list \<Rightarrow> (cache_key \<times> pyval) option" where
  "cache_get k [] = None"
| "cache_get k ((k', r) # es) = (if key_eq k' k then Some (k', r) else cache_get k es)"

fun del_key :: "cache_key \<Rightarrow> (cache_key \<times> pyval) list \<Rightarrow> (cache_key \<times> pyval) list" where
  "del_key k [] = []"
| "del_key k ((k', r) # es) = (if key_eq k' k then es else (k', r) # del_key k es)"

text \<open>A hit moves the entry to the most recently used end.\<close>

definition touch :: "cache_key \<Rightarrow> cache_key \<times> pyval \<Rightarrow> lru \<Rightarrow> lru" where
  "touch k link c = c\<lparr> entries := del_key k (entries c) @ [link] \<rparr>"

text \<open>
  Storing a computed result after a miss: nothing when the key is there by now, the oldest
  entry replaced when the cache is full, an entry added otherwise.
\<close>

definition insert_result :: "cache_key \<Rightarrow> pyval \<Rightarrow> lru \<Rightarrow> lru" where
  "insert_result k r c =
     (case maxsize c of
        None \<Rightarrow> (if cache_get k (entries c) \<noteq> None then c
                 else c\<lparr> entries := entries c @ [(k, r)] \<rparr>)
      | Some n \<Rightarrow>
          if cache_get k (entries c) \<noteq> None then c
          else if int (length (entries c)) \<ge> n
            then c\<lparr> entries := tl (entries c) @ [(k, r)] \<rparr>
          else c\<lparr> entries := entries c @ [(k, r)] \<rparr>)"

section \<open>Program state\<close>

text \<open>
  What an instance's \<^verbatim>\<open>__dict__\<close> can hold under a \<^verbatim>\<open>__cached_*\<close> name: the value a
  cached property stored, or the \<^verbatim>\<open>lru_cache\<close> function a cached method stored.
\<close>

datatype slot = Plain pyval | LruFunc lru

type_synonym oid = nat

text \<open>
  \<open>caching\<close> is \<^verbatim>\<open>vectorbt.defaults.caching\<close>; \<open>dicts s o\<close> is the \<^verbatim>\<open>__dict__\<close> of the
  object \<open>o\<close>; \<open>world\<close> is all the state the decorated functions read and write (they do
  not touch the \<^verbatim>\<open>__cached_*\<close> entries); \<open>calls\<close> counts the invocations of decorated
  functions made by the operations below.
\<close>

record 'w state =
  caching :: bool
  dicts :: "oid \<Rightarrow> string \<rightharpoonup> slot"
  world :: 'w
  calls :: nat

section \<open>\<^verbatim>\<open>custom_property\<close> and \<^verbatim>\<open>cached_property\<close>\<close>

record 'w custom_property =
  func :: "oid \<Rightarrow> 'w \<Rightarrow> (exn + pyval) \<times> 'w"

record 'w cached_property = "'w custom_property" +
  attrname :: string
  disabled :: bool

text \<open>\<^verbatim>\<open>cached_property.__set_name__\<close>\<close>

definition set_name :: "'w cached_property \<Rightarrow> string \<Rightarrow> 'w cached_property" where
  "set_name p name = p\<lparr> attrname := ''__cached_'' @ name \<rparr>"

text \<open>What \<^verbatim>\<open>__get__\<close> returns: the descriptor itself, or the value of the attribute.\<close>

datatype 'd got = Descriptor 'd | Value slot

text \<open>\<^verbatim>\<open>self.func(instance)\<close>\<close>

definition call_func :: "('w, 'z) custom_property_scheme \<Rightarrow> oid \<Rightarrow> 'w state
    \<Rightarrow> (exn + pyval) \<times> 'w state" where
  "call_func p obj s =
     (case func p obj (world s) of
        (r, w') \<Rightarrow> (r, s\<lparr> world := w', calls := calls s + 1 \<rparr>))"

text \<open>\<^verbatim>\<open>custom_property.__get__(self, instance, owner)\<close>\<close>

definition custom_get :: "('w, 'z) custom_property_scheme \<Rightarrow> oid option \<Rightarrow> 'w state
    \<Rightarrow> (exn + ('w, 'z) custom_property_scheme got) \<times> 'w state" where
  "custom_get p instance s =
     (case instance of
        None \<Rightarrow> (Inr (Descriptor p), s)
      | Some obj \<Rightarrow>
          (case call_func p obj s of
             (Inl e, s') \<Rightarrow> (Inl e, s')
           | (Inr v, s') \<Rightarrow> (Inr (Value (Plain v)), s')))"

text \<open>\<^verbatim>\<open>custom_property.__set__\<close>\<close>

definition custom_set :: "('w, 'z) custom_property_scheme \<Rightarrow> oid \<Rightarrow> pyval \<Rightarrow> 'w state
    \<Rightarrow> (exn + unit) \<times> 'w state" where
  "custom_set p obj v s = (Inl AttributeError, s)"

text \<open>\<^verbatim>\<open>cache[name] = val\<close> on the \<^verbatim>\<open>__dict__\<close> of \<open>obj\<close>.\<close>

definition store :: "oid \<Rightarrow> string \<Rightarrow> slot \<Rightarrow> 'w state \<Rightarrow> 'w state" where
  "store obj name val s = s\<lparr> dicts := (dicts s)(obj := (dicts s obj)(name \<mapsto> val)) \<rparr>"

text \<open>
  \<^verbatim>\<open>cached_property.__get__\<close>. The slot is read once outside the lock and once more
  inside it, as in the source.
\<close>

definition cached_get :: "'w cached_property \<Rightarrow> oid option \<Rightarrow> 'w state
    \<Rightarrow> (exn + 'w cached_property got) \<times> 'w state" where
  "cached_get p instance s =
     (case instance of
        None \<Rightarrow> (Inr (Descriptor p), s)
      | Some obj \<Rightarrow>
          if \<not> caching s \<or> disabled p then custom_get p instance s
          else (case dicts s obj (attrname p) of
                  Some val \<Rightarrow> (Inr (Value val), s)
                | None \<Rightarrow>
                    (case dicts s obj (attrname p) of
                       Some val \<Rightarrow> (Inr (Value val), s)
                     | None \<Rightarrow>
                         (case call_func p obj s of
                            (Inl e, s') \<Rightarrow> (Inl e, s')
                          | (Inr v, s') \<Rightarrow>
                              (Inr (Value (Plain v)), store obj (attrname p) (Plain v) s')))))"

text \<open>
  \<^verbatim>\<open>clear_cache(instance)\<close>, of a cached property and of a cached method alike:
  \<^verbatim>\<open>if hasattr(instance, name): delattr(instance, name)\<close>, for an instance whose class
  defines no attribute of that name.
\<close>

definition clear_cache :: "string \<Rightarrow> oid \<Rightarrow> 'w state \<Rightarrow> 'w state" where
  "clear_cache name obj s =
     (if name \<in> dom (dicts s obj)
      then s\<lparr> dicts := (dicts s)(obj := (dicts s obj)(name := None)) \<rparr>
      else s)"

text \<open>The state after \<open>n\<close> accesses \<^verbatim>\<open>o.p\<close> in a row.\<close>

fun get_times :: "nat \<Rightarrow> 'w cached_property \<Rightarrow> oid \<Rightarrow> 'w state \<Rightarrow> 'w state" where
  "get_times 0 p obj s = s"
| "get_times (Suc n) p obj s = get_times n p obj (snd (cached_get p (Some obj) s))"

section \<open>\<^verbatim>\<open>cached_method\<close>\<close>

text \<open>
  The attributes \<^verbatim>\<open>cached_method\<close> sets on the wrapper it returns. The function takes
  the instance, the positional arguments and the keyword arguments in call order.
\<close>

record 'w cached_method =
  method_func :: "oid \<Rightarrow> pyval list \<Rightarrow> (string \<times> pyval) list \<Rightarrow> 'w \<Rightarrow> (exn + pyval) \<times> 'w"
  method_maxsize :: "int option"
  method_typed :: bool
  method_attrname :: string
  method_disabled :: bool

text \<open>\<^verbatim>\<open>cached_method(maxsize=..., typed=..., disabled=...)(func)\<close>, for \<open>func\<close> named \<open>name\<close>.\<close>

definition cached_method :: "int option \<Rightarrow> bool \<Rightarrow> bool \<Rightarrow> string
    \<Rightarrow> (oid \<Rightarrow> pyval list \<Rightarrow> (string \<times> pyval) list \<Rightarrow> 'w \<Rightarrow> (exn + pyval) \<times> 'w)
    \<Rightarrow> 'w cached_method" where
  "cached_method ms t dis name f =
     \<lparr> method_func = f, method_maxsize = ms, method_typed = t,
       method_attrname = ''__cached_'' @ name, method_disabled = dis \<rparr>"

text \<open>\<^verbatim>\<open>func(instance, *args, **kwargs)\<close>\<close>

definition call_method :: "'w cached_method \<Rightarrow> oid \<Rightarrow> pyval list \<Rightarrow> (string \<times> pyval) list
    \<Rightarrow> 'w state \<Rightarrow> (exn + pyval) \<times> 'w state" where
  "call_method m obj args kwargs s =
     (case method_func m obj args kwargs (world s) of
        (r, w') \<Rightarrow> (r, s\<lparr> world := w', calls := calls s + 1 \<rparr>))"

text \<open>
  \<^verbatim>\<open>cached_func(*args, **kwargs)\<close>: a call of the \<^verbatim>\<open>lru_cache\<close> function \<open>c\<close> kept in
  the \<^verbatim>\<open>__dict__\<close> of \<open>obj\<close>. With \<open>maxsize = 0\<close> it only calls the function; otherwise
  it builds the key (hashing it), answers a hit from the cache, and on a miss calls the
  function and stores the result. An exception of the function leaves the cache as it was.
\<close>

definition cached_func :: "'w cached_method \<Rightarrow> oid \<Rightarrow> lru \<Rightarrow> pyval list
    \<Rightarrow> (string \<times> pyval) list \<Rightarrow> 'w state \<Rightarrow> (exn + pyval) \<times> 'w state" where
  "cached_func m obj c args kwds s =
     (if maxsize c = Some 0 then call_method m obj args kwds s
      else
        let k = make_key args kwds (typed c) in
        if \<not> key_hashable k then (Inl TypeError, s)
        else (case cache_get k (entries c) of
                Some link \<Rightarrow>
                  (Inr (snd link),
                   if maxsize c = None then s
                   else store obj (method_attrname m) (LruFunc (touch k link c)) s)
              | None \<Rightarrow>
                  (case call_method m obj args kwds s of
                     (Inl e, s') \<Rightarrow> (Inl e, s')
                   | (Inr r, s') \<Rightarrow>
                       (Inr r, store obj (method_attrname m)
                                 (LruFunc (insert_result k r c)) s'))))"

text \<open>
  The cache function of \<open>instance\<close>, created and stored on first use
  (lines 213 to 221 of the source).
\<close>

definition get_cached_func :: "'w cached_method \<Rightarrow> oid \<Rightarrow> 'w state \<Rightarrow> slot \<times> 'w state" where
  "get_cached_func m instance s =
     (case dicts s instance (method_attrname m) of
        Some cf \<Rightarrow> (cf, s)
      | None \<Rightarrow>
          (case dicts s instance (method_attrname m) of
             Some cf \<Rightarrow> (cf, s)
           | None \<Rightarrow>
               (let cf = LruFunc (new_lru (method_maxsize m) (method_typed m))
                in (cf, store instance (method_attrname m) cf s))))"

text \<open>
  The wrapper \<^verbatim>\<open>cached_method\<close> returns, called as
  \<^verbatim>\<open>wrapper(instance, *args, **kwargs)\<close>. \<^verbatim>\<open>checks.is_hashable\<close> is defined in another
  module; it is the parameter \<open>is_hashable\<close>. The two loops of the source set
  \<^verbatim>\<open>hashable = False\<close> as soon as one positional argument or one keyword value fails it.
  A slot that holds a plain value instead of a function cannot be called.
\<close>

definition wrapper :: "(pyval \<Rightarrow> bool) \<Rightarrow> 'w cached_method \<Rightarrow> oid \<Rightarrow> pyval list
    \<Rightarrow> (string \<times> pyval) list \<Rightarrow> 'w state \<Rightarrow> (exn + pyval) \<times> 'w state" where
  "wrapper is_hashable m instance args kwargs s =
     (if \<not> caching s \<or> method_disabled m then call_method m instance args kwargs s
      else
        (case get_cached_func m instance s of
           (cf, s1) \<Rightarrow>
             if \<not> (list_all is_hashable args \<and> list_all (\<lambda>(k, v). is_hashable v) kwargs)
             then call_method m instance args kwargs s1
             else (case cf of
                     LruFunc c \<Rightarrow> cached_func m instance c args kwargs s1
                   | Plain v \<Rightarrow> (Inl TypeError, s1))))"

text \<open>The entries of the keyed cache of \<open>obj\<close> under \<open>name\<close> (none when there is no cache).\<close>

definition cache_entries :: "'w state \<Rightarrow> oid \<Rightarrow> string \<Rightarrow> (cache_key \<times> pyval) list" where
  "cache_entries s obj name =
     (case dicts s obj name of Some (LruFunc c) \<Rightarrow> entries c | _ \<Rightarrow> [])"

text \<open>
  The cache a call of the method on \<open>obj\<close> works with: the one in the \<^verbatim>\<open>__dict__\<close>, or
  the new one the call creates when there is none.
\<close>

definition method_cache :: "'w cached_method \<Rightarrow> oid \<Rightarrow> 'w state \<Rightarrow> lru option" where
  "method_cache m obj s =
     (case dicts s obj (method_attrname m) of
        None \<Rightarrow> Some (new_lru (method_maxsize m) (method_typed m))
      | Some (LruFunc c) \<Rightarrow> Some c
      | Some (Plain v) \<Rightarrow> None)"

text \<open>A call with these arguments is a miss of the cache \<open>c\<close>: the function has to run.\<close>

definition cache_miss :: "lru \<Rightarrow> pyval list \<Rightarrow> (string \<times> pyval) list \<Rightarrow> bool" where
  "cache_miss c args kwds =
     (maxsize c = Some 0
      \<or> (key_hashable (make_key args kwds (typed c))
         \<and> cache_get (make_key args kwds (typed c)) (entries c) = None))"

text \<open>The state after a sequence of calls of the method on \<open>obj\<close>.\<close>

fun call_seq :: "(pyval \<Rightarrow> bool) \<Rightarrow> 'w cached_method \<Rightarrow> oid
    \<Rightarrow> (pyval list \<times> (string \<times> pyval) list) list \<Rightarrow> 'w state \<Rightarrow> 'w state" where
  "call_seq ih m obj [] s = s"
| "call_seq ih m obj ((args, kwargs) # cs) s =
     call_seq ih m obj cs (snd (wrapper ih m obj args kwargs s))"

text \<open>The keyed cache of \<open>obj\<close> for the method, if any, has bound \<open>N\<close> and respects it.\<close>

definition cache_bounded :: "int \<Rightarrow> 'w cached_method \<Rightarrow> oid \<Rightarrow> 'w state \<Rightarrow> bool" where
  "cache_bounded N m obj s =
     (case dicts s obj (method_attrname m) of
        Some (LruFunc c) \<Rightarrow> maxsize c = Some N \<and> int (length (entries c)) \<le> N
      | _ \<Rightarrow> True)"

text \<open>
  The call is keyed by its bare argument: no keyword arguments and a single positional
  argument whose type is exactly int or str.
\<close>

definition bare_keyed :: "pyval list \<Rightarrow> (string \<times> pyval) list \<Rightarrow> bool" where
  "bare_keyed args kwds =
     (kwds = [] \<and> (\<exists>v. args = [v] \<and> (py_type v = TInt \<or> py_type v = TStr)))"

section \<open>\<^verbatim>\<open>traverse_attr_kwargs\<close>\<close>

text \<open>
  The keyword configuration of a member (\<^verbatim>\<open>prop.kwargs\<close>) is a dict object created when
  the member is declared; \<^verbatim>\<open>traverse_attr_kwargs\<close> puts these very objects into its result
  and writes to them, so they live in a store, by address. An entry of a configuration is a
  value, or the mapping a traversal stored under \<^verbatim>\<open>child_attrs\<close>: the result of a
  traversal, from member names to the addresses of their configurations. Such a result is
  itself never written to once it has been returned.
\<close>

type_synonym addr = nat

type_synonym attrs = "string \<rightharpoonup> addr"

datatype entry = Val pyval | Sub attrs

type_synonym heap = "addr \<Rightarrow> string \<rightharpoonup> entry"

text \<open>
  A class table gives, for the class \<open>c\<close>, the names \<^verbatim>\<open>dir(cls)\<close> lists, each with the
  address of \<^verbatim>\<open>getattr(cls, attr).kwargs\<close> when the attribute has one.
\<close>

type_synonym class_table = "nat \<Rightarrow> (string \<times> addr option) list"

text \<open>Lines 272 and 273: a value that is not a tuple becomes a tuple of one element.\<close>

definition normalize_value :: "pyval \<Rightarrow> pyval" where
  "normalize_value v = (if v \<noteq> VNone \<and> py_type v \<noteq> TTuple then VTuple [v] else v)"

text \<open>
  \<^verbatim>\<open>_value in value\<close>, for the tuple \<open>value\<close>. The filter values are plain values, and a
  mapping stored under \<^verbatim>\<open>child_attrs\<close> equals none of them.
\<close>

definition entry_in :: "entry \<Rightarrow> pyval \<Rightarrow> bool" where
  "entry_in e v =
     (case e of
        Val x \<Rightarrow> (case v of VTuple vs \<Rightarrow> py_in x vs | _ \<Rightarrow> False)
      | Sub t \<Rightarrow> False)"

text \<open>
  Modelled from the spec: \<^verbatim>\<open>checks.assert_type\<close> is defined in a module that is not among
  the sources; the traversal fails with a type-mismatch error when the class argument or a
  declared child class is not a class, which is \<open>TypeError\<close> here.

  The body of the loop (lines 276 to 293) for one attribute. \<open>rec\<close> is the recursive call
  on the child class. In line 293 the right-hand side is evaluated first; then the
  configuration at \<open>a\<close> receives the key \<^verbatim>\<open>child_attrs\<close>.
\<close>

definition visit :: "(pyval \<Rightarrow> heap \<Rightarrow> (exn + attrs) \<times> heap) \<Rightarrow> string option \<Rightarrow> pyval
    \<Rightarrow> string \<Rightarrow> addr option \<Rightarrow> attrs \<Rightarrow> heap \<Rightarrow> (exn + attrs) \<times> heap" where
  "visit rec key v attr prop acc h =
     (case prop of
        None \<Rightarrow> (Inr acc, h)
      | Some a \<Rightarrow>
          (let kwargs = h a;
               acc1 = (case key of
                         None \<Rightarrow> acc(attr \<mapsto> a)
                       | Some k \<Rightarrow>
                           (case kwargs k of
                              None \<Rightarrow> acc
                            | Some e \<Rightarrow>
                                if v = VNone then acc(attr \<mapsto> a)
                                else if entry_in e v then acc(attr \<mapsto> a)
                                else acc))
           in (case kwargs ''child_cls'' of
                 None \<Rightarrow> (Inr acc1, h)
               | Some (Val (VType c)) \<Rightarrow>
                   (case rec (VType c) h of
                      (Inl x, h') \<Rightarrow> (Inl x, h')
                    | (Inr sub, h') \<Rightarrow>
                        (Inr (acc1(attr \<mapsto> a)),
                         h'(a := (h' a)(''child_attrs'' \<mapsto> Sub sub))))
               | Some e \<Rightarrow> (Inl TypeError, h))))"

text \<open>The loop \<^verbatim>\<open>for attr in dir(cls)\<close>; an exception ends it.\<close>

fun visit_all :: "(pyval \<Rightarrow> heap \<Rightarrow> (exn + attrs) \<times> heap) \<Rightarrow> string option \<Rightarrow> pyval
    \<Rightarrow> (string \<times> addr option) list \<Rightarrow> attrs \<Rightarrow> heap \<Rightarrow> (exn + attrs) \<times> heap" where
  "visit_all rec key v [] acc h = (Inr acc, h)"
| "visit_all rec key v ((attr, prop) # ms) acc h =
     (case visit rec key v attr prop acc h of
        (Inl x, h') \<Rightarrow> (Inl x, h')
      | (Inr acc', h') \<Rightarrow> visit_all rec key v ms acc' h')"

text \<open>
  \<^verbatim>\<open>traverse_attr_kwargs(cls, key, value)\<close>; \<open>VNone\<close> for \<open>value\<close> and \<open>None\<close> for \<open>key\<close>
  are the defaults. The first argument is the number of nested calls the interpreter still
  allows: Python ends a recursion through a cycle of child classes with
  \<^verbatim>\<open>RecursionError\<close>. The store is returned in every case, since what nested calls wrote
  stays written when an exception propagates.
\<close>

fun traverse_attr_kwargs :: "nat \<Rightarrow> class_table \<Rightarrow> pyval \<Rightarrow> string option \<Rightarrow> pyval \<Rightarrow> heap
    \<Rightarrow> (exn + attrs) \<times> heap" where
  "traverse_attr_kwargs 0 ct cls key v h = (Inl RecursionError, h)"
| "traverse_attr_kwargs (Suc d) ct cls key v h =
     (case cls of
        VType c \<Rightarrow>
          visit_all (\<lambda>child. traverse_attr_kwargs d ct child key (normalize_value v))
            key (normalize_value v) (ct c) Map.empty h
      | _ \<Rightarrow> (Inl TypeError, h))"

text \<open>
  What a traversal may have changed in the store: nothing but the key
  \<^verbatim>\<open>child_attrs\<close>, and only in configurations that have a \<^verbatim>\<open>child_cls\<close>.
\<close>

definition only_child_attrs :: "heap \<Rightarrow> heap \<Rightarrow> bool" where
  "only_child_attrs h h' =
     (\<forall>a. (''child_cls'' \<notin> dom (h a) \<longrightarrow> h' a = h a)
          \<and> (\<forall>k. k \<noteq> ''child_attrs'' \<longrightarrow> h' a k = h a k))"

text \<open>The configuration has the key \<open>k\<close> with a value among the filter values \<open>v\<close>.\<close>

definition cfg_match :: "(string \<rightharpoonup> entry) \<Rightarrow> string \<Rightarrow> pyval \<Rightarrow> bool" where
  "cfg_match cfg k v =
     (case cfg k of None \<Rightarrow> False | Some e \<Rightarrow> entry_in e (normalize_value v))"

text \<open>
  The filter values lines 272 and 273 leave: the elements of a tuple, or the one value that
  is not a tuple.
\<close>

definition filter_values :: "pyval \<Rightarrow> pyval list" where
  "filter_values v = (case v of VTuple vs \<Rightarrow> vs | _ \<Rightarrow> [v])"

text \<open>
  The declared child classes are classes and the child relation is well founded: \<open>rk\<close>
  gives every class a rank above the rank of each class its members declare as child.
\<close>

definition child_ranked :: "class_table \<Rightarrow> heap \<Rightarrow> (nat \<Rightarrow> nat) \<Rightarrow> bool" where
  "child_ranked ct h rk =
     (\<forall>c attr a e. (attr, Some a) \<in> set (ct c) \<and> h a ''child_cls'' = Some e
        \<longrightarrow> (\<exists>c'. e = Val (VType c') \<and> rk c' < rk c))"

text \<open>The member whose configuration is at \<open>a\<close> passes the filter or has a child class.\<close>

definition selected :: "heap \<Rightarrow> string \<Rightarrow> pyval \<Rightarrow> addr \<Rightarrow> bool" where
  "selected h k v a = ((\<exists>e. h a k = Some e \<and> entry_in e v) \<or> ''child_cls'' \<in> dom (h a))"

section \<open>\<^verbatim>\<open>add_nb_methods\<close>\<close>

text \<open>\<^verbatim>\<open>s.replace(old, new)\<close> and \<^verbatim>\<open>sub in s\<close> on strings.\<close>

fun py_replace :: "string \<Rightarrow> string \<Rightarrow> string \<Rightarrow> string" where
  "py_replace old new [] = (if old = [] then new else [])"
| "py_replace old new (c # cs) =
     (if old = [] then new @ c # py_replace old new cs
      else if take (length old) (c # cs) = old
        then new @ py_replace old new (drop (length old) (c # cs))
      else c # py_replace old new cs)"

fun py_contains :: "string \<Rightarrow> string \<Rightarrow> bool" where
  "py_contains sub [] = (sub = [])"
| "py_contains sub (c # cs) = (take (length sub) (c # cs) = sub \<or> py_contains sub cs)"

text \<open>
  A Numba function as \<^verbatim>\<open>add_nb_methods\<close> sees it: its \<^verbatim>\<open>__name__\<close> and the defaults
  \<^verbatim>\<open>get_kwargs\<close> reads off its signature. The method installed for it keeps the function
  and the defaults, takes a one-dimensional view of the data when the name contains
  \<^verbatim>\<open>_1d\<close>, and carries a docstring that points to the function.
\<close>

record nb_func =
  nb_name :: string
  nb_defaults :: "(string \<times> pyval) list"

record nb_method =
  wrapped :: nb_func
  default_kwargs :: "(string \<times> pyval) list"
  one_dimensional :: bool
  doc :: string

datatype member = Declared nat | NbMethod nb_method

text \<open>The name under which line 59 installs the method.\<close>

definition method_name :: "nb_func \<Rightarrow> string" where
  "method_name f = py_replace ''_nb'' '''' (py_replace ''_1d'' '''' (nb_name f))"

definition make_nb_method :: "string option \<Rightarrow> nb_func \<Rightarrow> nb_method" where
  "make_nb_method module_name f =
     \<lparr> wrapped = f, default_kwargs = nb_defaults f,
       one_dimensional = py_contains ''_1d'' (nb_name f),
       doc = (case module_name of
                Some mn \<Rightarrow> ''See `'' @ mn @ ''.'' @ nb_name f @ ''`''
              | None \<Rightarrow> ''See `'' @ nb_name f @ ''`'') \<rparr>"

text \<open>\<^verbatim>\<open>add_nb_methods(*nb_funcs, module_name=...)(cls)\<close>, the class as its attributes.\<close>

fun add_nb_methods :: "string option \<Rightarrow> nb_func list \<Rightarrow> (string \<rightharpoonup> member)
    \<Rightarrow> (string \<rightharpoonup> member)" where
  "add_nb_methods module_name [] cls = cls"
| "add_nb_methods module_name (f # fs) cls =
     add_nb_methods module_name fs (cls(method_name f \<mapsto> NbMethod (make_nb_method module_name f)))"

section \<open>Concrete instances\<close>

text \<open>A cached property \<^verbatim>\<open>total\<close> whose function returns 7 and counts its runs in the world.\<close>

definition const_prop :: "nat cached_property" where
  "const_prop = \<lparr> func = (\<lambda>obj w. (Inr (VInt 7), Suc w)),
                  attrname = ''__cached_total'', disabled = False \<rparr>"

text \<open>Caching on, no object has any cached entry yet.\<close>

definition cold :: "nat state" where
  "cold = \<lparr> caching = True, dicts = (\<lambda>obj. Map.empty), world = 0, calls = 0 \<rparr>"

text \<open>
  A cached method \<^verbatim>\<open>f\<close> with the default \<^verbatim>\<open>maxsize=128, typed=False\<close> that returns
  the number of its positional arguments.
\<close>

definition echo_method :: "nat cached_method" where
  "echo_method = cached_method (Some 128) False False ''f''
     (\<lambda>obj args kwargs w. (Inr (VInt (int (length args))), Suc w))"

text \<open>A cached property and a cached method whose functions always raise.\<close>

definition failing_prop :: "nat cached_property" where
  "failing_prop = \<lparr> func = (\<lambda>obj w. (Inl (Raised 1), Suc w)),
                    attrname = ''__cached_broken'', disabled = False \<rparr>"

definition failing_method :: "nat cached_method" where
  "failing_method = cached_method (Some 128) False False ''g''
     (\<lambda>obj args kwargs w. (Inl (Raised 1), Suc w))"

text \<open>The same method declared with \<^verbatim>\<open>typed=True\<close>.\<close>

definition typed_method :: "nat cached_method" where
  "typed_method = cached_method (Some 128) True False ''f''
     (\<lambda>obj args kwargs w. (Inr (VInt (int (length args))), Suc w))"

text \<open>A cached method \<^verbatim>\<open>h\<close> with \<^verbatim>\<open>maxsize=2\<close> that returns its positional arguments.\<close>

definition small_method :: "nat cached_method" where
  "small_method = cached_method (Some 2) False False ''h''
     (\<lambda>obj args kwargs w. (Inr (VTuple args), Suc w))"

text \<open>
  A class 0 with three annotated members \<^verbatim>\<open>a\<close>, \<^verbatim>\<open>b\<close>, \<^verbatim>\<open>c\<close>, a member \<^verbatim>\<open>child\<close> whose
  configuration is \<^verbatim>\<open>child_cls=\<close>class 1, and an attribute without configuration; class 1
  has the annotated member \<^verbatim>\<open>x\<close>.
\<close>

definition ct0 :: class_table where
  "ct0 = (\<lambda>c. if c = 0 then [(''a'', Some 0), (''b'', Some 1), (''c'', Some 2),
                               (''child'', Some 3), (''plain'', None)]
               else if c = 1 then [(''x'', Some 4)]
               else [])"

definition h0 :: heap where
  "h0 = (\<lambda>a. Map.empty)
          (0 := [''k'' \<mapsto> Val (VInt 1)],
           1 := [''k'' \<mapsto> Val (VInt 3)],
           2 := [''other'' \<mapsto> Val (VInt 1)],
           3 := [''child_cls'' \<mapsto> Val (VType 1)],
           4 := [''k'' \<mapsto> Val (VInt 2)])"

text \<open>Two Numba functions.\<close>

definition rolling_mean_nb :: nb_func where
  "rolling_mean_nb = \<lparr> nb_name = ''rolling_mean_nb'', nb_defaults = [(''minp'', VNone)] \<rparr>"

definition describe :: nb_func where
  "describe = \<lparr> nb_name = ''describe'', nb_defaults = [] \<rparr>"

text \<open>
  A cached property \<^verbatim>\<open>stamp\<close> whose function returns \<open>10 * obj\<close> plus the number of runs
  so far.
\<close>

definition stamp_prop :: "nat cached_property" where
  "stamp_prop = \<lparr> func = (\<lambda>obj w. (Inr (VInt (int (10 * obj + w))), Suc w)),
                  attrname = ''__cached_stamp'', disabled = False \<rparr>"

text \<open>A rank for the classes of \<open>ct0\<close>: class 0 above its child class 1.\<close>

definition rk0 :: "nat \<Rightarrow> nat" where
  "rk0 c = (if c = 0 then 1 else 0)"

section \<open>Evaluation of the concrete instances\<close>

lemmas eval_defs = cold_def echo_method_def typed_method_def small_method_def cached_method_def
  wrapper_def get_cached_func_def cached_func_def call_method_def store_def Let_def
  cache_entries_def new_lru_def make_key_def insert_result_def touch_def bare_keyed_def

lemmas traverse_eval = ct0_def h0_def visit_def entry_in_def normalize_value_def cfg_match_def
  Let_def numeral_2_eq_2

section \<open>Properties of the cached property\<close>

lemma cached_get_hit:
  "caching s \<Longrightarrow> \<not> disabled p \<Longrightarrow> dicts s obj (attrname p) = Some val
   \<Longrightarrow> cached_get p (Some obj) s = (Inr (Value val), s)"
  by (simp add: cached_get_def)

lemma get_times_hit:
  "caching s \<Longrightarrow> \<not> disabled p \<Longrightarrow> dicts s obj (attrname p) = Some val
   \<Longrightarrow> get_times n p obj s = s"
  by (induction n) (simp_all add: cached_get_hit)

lemma cached_get_miss:
  "caching s \<Longrightarrow> \<not> disabled p \<Longrightarrow> dicts s obj (attrname p) = None
   \<Longrightarrow> cached_get p (Some obj) s =
       (case func p obj (world s) of
          (Inl e, w') \<Rightarrow> (Inl e, s\<lparr> world := w', calls := calls s + 1 \<rparr>)
        | (Inr v, w') \<Rightarrow> (Inr (Value (Plain v)),
             store obj (attrname p) (Plain v) (s\<lparr> world := w', calls := calls s + 1 \<rparr>)))"
  by (simp add: cached_get_def call_func_def split: prod.splits sum.splits)

lemma cached_get_bypass:
  "\<not> caching s \<or> disabled p
   \<Longrightarrow> cached_get p (Some obj) s =
       (case func p obj (world s) of
          (Inl e, w') \<Rightarrow> (Inl e, s\<lparr> world := w', calls := calls s + 1 \<rparr>)
        | (Inr v, w') \<Rightarrow> (Inr (Value (Plain v)), s\<lparr> world := w', calls := calls s + 1 \<rparr>))"
  by (auto simp add: cached_get_def custom_get_def call_func_def split: prod.splits sum.splits)

text \<open>
  Claim C1. With the global toggle on and a property that is not disabled, the function
  behind the property runs at most once over any number \<open>n\<close> of accesses \<^verbatim>\<open>o.p\<close> with no
  \<^verbatim>\<open>clear_cache\<close> in between. When the slot is empty, the first access runs the function
  once, returns the very value the function returned and stores it in the slot, the world
  being the one the function left; every later access returns that stored value and leaves
  the state, the call counter included, as the first access left it. When the slot already
  holds a value, every access returns it and the function is not run at all. The claim
  speaks of a first access that computes a value, so the function is taken to return
  normally if the first access has to run it (a function that raises is the subject of C3).
\<close>

theorem cached_property_computed_once:
  assumes on: "caching s" and en: "\<not> disabled p"
    and ok: "dicts s obj (attrname p) = None \<longrightarrow> (\<exists>v. fst (func p obj (world s)) = Inr v)"
  shows "calls (get_times n p obj s) \<le> calls s + 1
       \<and> (\<forall>val. dicts s obj (attrname p) = Some val \<longrightarrow>
             (\<forall>k. get_times k p obj s = s
                  \<and> cached_get p (Some obj) (get_times k p obj s) = (Inr (Value val), s)))
       \<and> (\<forall>v w'. dicts s obj (attrname p) = None \<and> func p obj (world s) = (Inr v, w') \<longrightarrow>
             cached_get p (Some obj) s
               = (Inr (Value (Plain v)),
                  s\<lparr> dicts := (dicts s)(obj := (dicts s obj)(attrname p \<mapsto> Plain v)),
                     world := w', calls := calls s + 1 \<rparr>)
             \<and> (\<forall>k. get_times (Suc k) p obj s = snd (cached_get p (Some obj) s)
                    \<and> cached_get p (Some obj) (get_times (Suc k) p obj s)
                        = (Inr (Value (Plain v)), snd (cached_get p (Some obj) s))))"
proof (intro conjI allI impI)
  show "calls (get_times n p obj s) \<le> calls s + 1"
  proof (cases "dicts s obj (attrname p)")
    case (Some val)
    then show ?thesis using get_times_hit[OF on en Some] by simp
  next
    case None
    then obtain v w' where f: "func p obj (world s) = (Inr v, w')"
      using ok by (cases "func p obj (world s)") auto
    define s1 where "s1 = snd (cached_get p (Some obj) s)"
    have s1: "s1 = store obj (attrname p) (Plain v) (s\<lparr> world := w', calls := calls s + 1 \<rparr>)"
      using on en None f by (simp add: s1_def cached_get_miss)
    have h: "caching s1" "dicts s1 obj (attrname p) = Some (Plain v)" "calls s1 = calls s + 1"
      using on by (simp_all add: s1 store_def)
    show ?thesis
    proof (cases n)
      case 0
      then show ?thesis by simp
    next
      case (Suc m)
      then have "get_times n p obj s = s1"
        using get_times_hit[OF h(1) en h(2)] by (simp add: s1_def)
      then show ?thesis using h(3) by simp
    qed
  qed
next
  fix val k
  assume v: "dicts s obj (attrname p) = Some val"
  show "get_times k p obj s = s" using get_times_hit[OF on en v] .
  then show "cached_get p (Some obj) (get_times k p obj s) = (Inr (Value val), s)"
    using cached_get_hit[OF on en v] by simp
next
  fix v w'
  assume a: "dicts s obj (attrname p) = None \<and> func p obj (world s) = (Inr v, w')"
  show g: "cached_get p (Some obj) s
               = (Inr (Value (Plain v)),
                  s\<lparr> dicts := (dicts s)(obj := (dicts s obj)(attrname p \<mapsto> Plain v)),
                     world := w', calls := calls s + 1 \<rparr>)"
    using on en a by (simp add: cached_get_miss store_def)
  define s1 where "s1 = snd (cached_get p (Some obj) s)"
  have h: "caching s1" "dicts s1 obj (attrname p) = Some (Plain v)"
    using on g by (simp_all add: s1_def)
  fix k
  show t: "get_times (Suc k) p obj s = snd (cached_get p (Some obj) s)"
    using get_times_hit[OF h(1) en h(2)] by (simp add: s1_def)
  show "cached_get p (Some obj) (get_times (Suc k) p obj s)
                        = (Inr (Value (Plain v)), snd (cached_get p (Some obj) s))"
    unfolding t using cached_get_hit[OF h(1) en h(2)] by (simp add: s1_def)
qed

theorem cached_property_computed_once_witness:
  "caching cold \<and> \<not> disabled stamp_prop
   \<and> dicts cold 3 (attrname stamp_prop) = None
   \<and> func stamp_prop 3 (world cold) = (Inr (VInt 30), 1)
   \<and> cached_get stamp_prop (Some 3) cold
       = (Inr (Value (Plain (VInt 30))),
          cold\<lparr> dicts := (dicts cold)(3 := [''__cached_stamp'' \<mapsto> Plain (VInt 30)]),
                world := 1, calls := 1 \<rparr>)
   \<and> calls (get_times 3 stamp_prop 3 cold) = 1
   \<and> world (get_times 3 stamp_prop 3 cold) = 1
   \<and> fst (cached_get stamp_prop (Some 3) (get_times 3 stamp_prop 3 cold))
       = Inr (Value (Plain (VInt 30)))"
  using cached_property_computed_once [of cold stamp_prop 3 3]
  by (simp add: cold_def stamp_prop_def cached_get_def call_func_def store_def
        eval_nat_numeral)

lemma clear_cache_absent:
  "dicts s obj name = None \<Longrightarrow> clear_cache name obj s = s"
  by (simp add: clear_cache_def dom_def)

lemma clear_cache_slot:
  "dicts (clear_cache name obj s) obj name = None"
  by (auto simp add: clear_cache_def dom_def)

lemma calls_cached_get_cold:
  "dicts s obj (attrname p) = None \<Longrightarrow> calls (snd (cached_get p (Some obj) s)) = calls s + 1"
  by (cases "caching s \<and> \<not> disabled p"; cases "func p obj (world s)")
     (auto simp add: cached_get_miss cached_get_bypass store_def split: sum.splits)

lemma calls_clear_cache: "calls (clear_cache name obj s) = calls s"
  by (simp add: clear_cache_def)

text \<open>
  Claim C6. \<^verbatim>\<open>clear_cache\<close> of a cached property leaves the slot empty; when the slot is
  already empty it changes nothing, so clearing twice is clearing once; and starting from
  an empty slot the sequence access, clear, access runs the function behind the property
  exactly twice.
\<close>

theorem clear_cache_then_recompute:
  "dicts (clear_cache (attrname p) obj s) obj (attrname p) = None
   \<and> (dicts s obj (attrname p) = None \<longrightarrow> clear_cache (attrname p) obj s = s)
   \<and> clear_cache (attrname p) obj (clear_cache (attrname p) obj s) = clear_cache (attrname p) obj s
   \<and> (dicts s obj (attrname p) = None \<longrightarrow>
        calls (snd (cached_get p (Some obj)
                  (clear_cache (attrname p) obj (snd (cached_get p (Some obj) s)))))
        = calls s + 2)"
proof -
  have a: "dicts (clear_cache (attrname p) obj s) obj (attrname p) = None" for s :: "'a state"
    by (rule clear_cache_slot)
  have b: "clear_cache (attrname p) obj (clear_cache (attrname p) obj s) = clear_cache (attrname p) obj s"
    using clear_cache_absent[OF a] .
  have c: "calls (snd (cached_get p (Some obj)
                  (clear_cache (attrname p) obj (snd (cached_get p (Some obj) s)))))
        = calls s + 2" if "dicts s obj (attrname p) = None"
    using calls_cached_get_cold[OF a] calls_cached_get_cold[OF that]
    by (simp add: calls_clear_cache)
  show ?thesis using a b c clear_cache_absent by blast
qed

theorem clear_cache_then_recompute_witness:
  "dicts cold 0 (attrname const_prop) = None
   \<and> calls (snd (cached_get const_prop (Some 0)
        (clear_cache (attrname const_prop) 0 (snd (cached_get const_prop (Some 0) cold))))) = 2"
  using clear_cache_then_recompute [of const_prop 0 cold]
  by (simp add: cold_def const_prop_def)

text \<open>
  Claim C10. Reading a \<^verbatim>\<open>custom_property\<close> or a \<^verbatim>\<open>cached_property\<close> through the class
  (\<^verbatim>\<open>instance is None\<close>) returns the descriptor itself and leaves the whole state as it
  was: the function is not run and no \<^verbatim>\<open>__dict__\<close> is read or written.
\<close>

theorem class_access_returns_descriptor:
  "custom_get q None s = (Inr (Descriptor q), s)
   \<and> cached_get p None s = (Inr (Descriptor p), s)
   \<and> calls (snd (custom_get q None s)) = calls s
   \<and> dicts (snd (cached_get p None s)) = dicts s"
  by (simp add: custom_get_def cached_get_def)

theorem class_access_returns_descriptor_witness:
  "cached_get const_prop None cold = (Inr (Descriptor const_prop), cold)
   \<and> custom_get const_prop None cold = (Inr (Descriptor const_prop), cold)"
  using class_access_returns_descriptor [of const_prop cold const_prop]
  by simp

section \<open>Properties of the cached method\<close>

lemma call_method_simps:
  "dicts (snd (call_method m obj args kwargs s)) = dicts s"
  "caching (snd (call_method m obj args kwargs s)) = caching s"
  "calls (snd (call_method m obj args kwargs s)) = calls s + 1"
  "world (snd (call_method m obj args kwargs s)) = snd (method_func m obj args kwargs (world s))"
  "fst (call_method m obj args kwargs s) = fst (method_func m obj args kwargs (world s))"
  by (simp_all add: call_method_def split: prod.splits)

lemma store_simps:
  "dicts (store obj name val s) = (dicts s)(obj := (dicts s obj)(name \<mapsto> val))"
  "caching (store obj name val s) = caching s"
  "calls (store obj name val s) = calls s"
  "world (store obj name val s) = world s"
  by (simp_all add: store_def)

lemma get_cached_func_simps:
  "caching (snd (get_cached_func m obj s)) = caching s"
  "calls (snd (get_cached_func m obj s)) = calls s"
  "world (snd (get_cached_func m obj s)) = world s"
  "dicts (snd (get_cached_func m obj s)) =
     (if dicts s obj (method_attrname m) = None
      then (dicts s)(obj := (dicts s obj)(method_attrname m \<mapsto>
              LruFunc (new_lru (method_maxsize m) (method_typed m))))
      else dicts s)"
  by (auto simp add: get_cached_func_def store_simps Let_def split: option.splits)

lemma wrapper_unhashable:
  assumes "\<not> (list_all ih args \<and> list_all (\<lambda>(k, v). ih v) kwargs)"
  shows "wrapper ih m obj args kwargs s =
     call_method m obj args kwargs
       (if caching s \<and> \<not> method_disabled m then snd (get_cached_func m obj s) else s)"
  using assms by (auto simp add: wrapper_def split: prod.splits)

text \<open>
  Claim C2, as amended. A call of a cached method in which some positional argument or
  keyword value fails the hashability check returns what the function returns (value or
  exception) and runs the function exactly once; it stores no entry in any keyed cache and
  leaves every existing entry of every \<^verbatim>\<open>__dict__\<close> as it was. The only change to
  storage: when caching is on, the method is not disabled and the object has no keyed cache
  for the method yet, the call has created an empty one and stored it on the object before
  it checked the arguments.
\<close>

theorem unhashable_call_bypasses:
  assumes "\<not> (list_all ih args \<and> list_all (\<lambda>(k, v). ih v) kwargs)"
  shows "fst (wrapper ih m obj args kwargs s) = fst (method_func m obj args kwargs (world s))
       \<and> world (snd (wrapper ih m obj args kwargs s)) = snd (method_func m obj args kwargs (world s))
       \<and> calls (snd (wrapper ih m obj args kwargs s)) = calls s + 1
       \<and> cache_entries (snd (wrapper ih m obj args kwargs s)) obj' name = cache_entries s obj' name
       \<and> dicts (snd (wrapper ih m obj args kwargs s)) =
           (if caching s \<and> \<not> method_disabled m \<and> dicts s obj (method_attrname m) = None
            then (dicts s)(obj := (dicts s obj)(method_attrname m \<mapsto>
                    LruFunc (new_lru (method_maxsize m) (method_typed m))))
            else dicts s)"
  unfolding wrapper_unhashable[OF assms]
  by (auto simp add: call_method_simps get_cached_func_simps cache_entries_def new_lru_def)

text \<open>
  Claim C2 as stated fails: the first call of \<^verbatim>\<open>o.f([])\<close> on an object with no cache stores
  an (empty) cache function under \<^verbatim>\<open>__cached_f\<close> in the object's \<^verbatim>\<open>__dict__\<close>.
\<close>

theorem unhashable_call_creates_cache:
  "\<not> list_all py_hashable [VList []]
   \<and> dicts cold 0 ''__cached_f'' = None
   \<and> dicts (snd (wrapper py_hashable echo_method 0 [VList []] [] cold)) 0 ''__cached_f''
       = Some (LruFunc \<lparr> maxsize = Some 128, typed = False, entries = [] \<rparr>)"
  by (simp add: wrapper_def get_cached_func_def echo_method_def cached_method_def cold_def
        call_method_def store_def new_lru_def Let_def)

theorem unhashable_call_bypasses_witness:
  "\<not> (list_all py_hashable [VList []] \<and> list_all (\<lambda>(k, v). py_hashable v) [])
   \<and> fst (wrapper py_hashable echo_method 0 [VList []] [] cold) = Inr (VInt 1)
   \<and> calls (snd (wrapper py_hashable echo_method 0 [VList []] [] cold)) = 1
   \<and> cache_entries (snd (wrapper py_hashable echo_method 0 [VList []] [] cold)) 0 ''__cached_f'' = []"
  using unhashable_call_bypasses [of py_hashable "[VList []]" "[]" echo_method 0 cold 0 "''__cached_f''"]
  by (simp add: wrapper_def get_cached_func_def echo_method_def cached_method_def cold_def
        call_method_def store_def new_lru_def Let_def cache_entries_def)

lemma wrapper_cached:
  assumes "caching s" "\<not> method_disabled m"
    "list_all ih args" "list_all (\<lambda>(k, v). ih v) kwargs"
    "method_cache m obj s = Some c"
  shows "wrapper ih m obj args kwargs s
         = cached_func m obj c args kwargs (snd (get_cached_func m obj s))"
  using assms
  by (auto simp add: wrapper_def method_cache_def get_cached_func_def Let_def
      split: option.splits slot.splits)

lemma method_cache_get_cached_func:
  "method_cache m obj s = Some c
   \<Longrightarrow> dicts (snd (get_cached_func m obj s)) obj (method_attrname m) = Some (LruFunc c)"
  by (auto simp add: method_cache_def get_cached_func_simps split: option.splits slot.splits)

lemma cached_func_miss:
  assumes "cache_miss c args kwds"
  shows "cached_func m obj c args kwds s =
     (case method_func m obj args kwds (world s) of
        (Inl e, w') \<Rightarrow> (Inl e, s\<lparr> world := w', calls := calls s + 1 \<rparr>)
      | (Inr r, w') \<Rightarrow>
          (Inr r, if maxsize c = Some 0 then s\<lparr> world := w', calls := calls s + 1 \<rparr>
                  else store obj (method_attrname m)
                         (LruFunc (insert_result (make_key args kwds (typed c)) r c))
                         (s\<lparr> world := w', calls := calls s + 1 \<rparr>)))"
  using assms
  by (auto simp add: cached_func_def cache_miss_def call_method_def Let_def
      split: prod.splits sum.splits)

lemma calls_cached_func_miss:
  "cache_miss c args kwds \<Longrightarrow> calls (snd (cached_func m obj c args kwds s)) = calls s + 1"
  by (simp add: cached_func_miss store_simps split: prod.splits sum.splits)

lemma cached_func_raise:
  "cache_miss c args kwds \<Longrightarrow> method_func m obj args kwds (world s) = (Inl e, w')
   \<Longrightarrow> cached_func m obj c args kwds s = (Inl e, s\<lparr> world := w', calls := calls s + 1 \<rparr>)"
  by (simp add: cached_func_miss)

lemma wrapper_raise:
  assumes "caching s" "\<not> method_disabled m"
    "list_all ih args" "list_all (\<lambda>(k, v). ih v) kwargs"
    "method_cache m obj s = Some c" "cache_miss c args kwargs"
    "method_func m obj args kwargs (world s) = (Inl e, w')"
  shows "wrapper ih m obj args kwargs s
         = (Inl e, (snd (get_cached_func m obj s))\<lparr> world := w', calls := calls s + 1 \<rparr>)"
  using assms(7)
  by (simp add: wrapper_cached[OF assms(1-5)] cached_func_raise[OF assms(6)]
        get_cached_func_simps)

text \<open>
  Claim C3. When the function behind a cached property raises on an access that finds the
  slot empty, the access raises the same exception, the slot is still empty, and the next
  access runs the function again. When the function behind a cached method raises on a
  call that misses the keyed cache, the call raises the same exception, the cache holds
  exactly the entries it held (none for this key), and the next call with the same
  arguments runs the function again.
\<close>

theorem failed_computation_not_cached:
  "(caching s \<and> \<not> disabled p \<and> dicts s obj (attrname p) = None
      \<and> func p obj (world s) = (Inl e, w')
    \<longrightarrow> cached_get p (Some obj) s = (Inl e, s\<lparr> world := w', calls := calls s + 1 \<rparr>)
        \<and> dicts (snd (cached_get p (Some obj) s)) obj (attrname p) = None
        \<and> calls (snd (cached_get p (Some obj) (snd (cached_get p (Some obj) s)))) = calls s + 2)
   \<and> (caching s \<and> \<not> method_disabled m
      \<and> list_all ih args \<and> list_all (\<lambda>(k, v). ih v) kwargs
      \<and> method_cache m obj s = Some c \<and> cache_miss c args kwargs
      \<and> method_func m obj args kwargs (world s) = (Inl e, w')
    \<longrightarrow> fst (wrapper ih m obj args kwargs s) = Inl e
        \<and> method_cache m obj (snd (wrapper ih m obj args kwargs s)) = Some c
        \<and> cache_entries (snd (wrapper ih m obj args kwargs s)) obj (method_attrname m) = entries c
        \<and> calls (snd (wrapper ih m obj args kwargs (snd (wrapper ih m obj args kwargs s))))
            = calls s + 2)"
proof (intro conjI impI)
  assume a: "caching s \<and> \<not> disabled p \<and> dicts s obj (attrname p) = None
      \<and> func p obj (world s) = (Inl e, w')"
  then show g: "cached_get p (Some obj) s = (Inl e, s\<lparr> world := w', calls := calls s + 1 \<rparr>)"
    by (simp add: cached_get_miss)
  then show "dicts (snd (cached_get p (Some obj) s)) obj (attrname p) = None"
    using a by simp
  then show "calls (snd (cached_get p (Some obj) (snd (cached_get p (Some obj) s)))) = calls s + 2"
    using calls_cached_get_cold[of "snd (cached_get p (Some obj) s)" obj p] g by simp
next
  assume a: "caching s \<and> \<not> method_disabled m
      \<and> list_all ih args \<and> list_all (\<lambda>(k, v). ih v) kwargs
      \<and> method_cache m obj s = Some c \<and> cache_miss c args kwargs
      \<and> method_func m obj args kwargs (world s) = (Inl e, w')"
  define s' where "s' = snd (wrapper ih m obj args kwargs s)"
  have w: "wrapper ih m obj args kwargs s
         = (Inl e, (snd (get_cached_func m obj s))\<lparr> world := w', calls := calls s + 1 \<rparr>)"
    using wrapper_raise[of s m ih args kwargs obj c e w'] a by simp
  then show "fst (wrapper ih m obj args kwargs s) = Inl e" by simp
  have slot: "dicts s' obj (method_attrname m) = Some (LruFunc c)"
    using a w method_cache_get_cached_func[of m obj s c] by (simp add: s'_def)
  then show mc: "method_cache m obj (snd (wrapper ih m obj args kwargs s)) = Some c"
    by (simp add: method_cache_def s'_def)
  show "cache_entries (snd (wrapper ih m obj args kwargs s)) obj (method_attrname m) = entries c"
    using slot by (simp add: cache_entries_def s'_def)
  have on': "caching s'" and c': "calls s' = calls s + 1"
    using a w by (simp_all add: s'_def get_cached_func_simps)
  have "wrapper ih m obj args kwargs s' = cached_func m obj c args kwargs s'"
    using wrapper_cached[of s' m ih args kwargs obj c] on' a mc slot
    by (simp add: s'_def[symmetric] get_cached_func_def)
  then show "calls (snd (wrapper ih m obj args kwargs (snd (wrapper ih m obj args kwargs s))))
            = calls s + 2"
    using calls_cached_func_miss[of c args kwargs m obj s'] a c' by (simp add: s'_def[symmetric])
qed


theorem failed_computation_not_cached_witness:
  "cached_get failing_prop (Some 0) cold = (Inl (Raised 1), cold\<lparr> world := 1, calls := 1 \<rparr>)
   \<and> calls (snd (cached_get failing_prop (Some 0)
                 (snd (cached_get failing_prop (Some 0) cold)))) = 2
   \<and> fst (wrapper py_hashable failing_method 0 [VInt 1] [] cold) = Inl (Raised 1)
   \<and> cache_entries (snd (wrapper py_hashable failing_method 0 [VInt 1] [] cold)) 0 ''__cached_g'' = []
   \<and> calls (snd (wrapper py_hashable failing_method 0 [VInt 1] []
                 (snd (wrapper py_hashable failing_method 0 [VInt 1] [] cold)))) = 2"
  using failed_computation_not_cached [where s = cold and p = failing_prop and obj = 0
      and e = "Raised 1" and w' = 1 and m = failing_method and ih = py_hashable
      and args = "[VInt 1]" and kwargs = "[]" and c = "new_lru (Some 128) False"]
  by (simp add: cold_def failing_prop_def failing_method_def cached_method_def
        method_cache_def cache_miss_def new_lru_def make_key_def cached_get_def call_func_def
        wrapper_def get_cached_func_def cached_func_def call_method_def store_def Let_def
        cache_entries_def)

section \<open>Properties of the keyed cache\<close>

lemma length_del_key:
  "cache_get k es = Some link \<Longrightarrow> Suc (length (del_key k es)) = length es"
  by (induction k es rule: cache_get.induct) (auto split: if_splits)

lemma length_touch:
  "cache_get k (entries c) = Some link \<Longrightarrow> length (entries (touch k link c)) = length (entries c)"
  by (simp add: touch_def length_del_key)

lemma maxsize_touch: "maxsize (touch k link c) = maxsize c"
  by (simp add: touch_def)

lemma maxsize_insert_result: "maxsize (insert_result k r c) = maxsize c"
  by (simp add: insert_result_def split: option.splits)

lemma length_insert_result:
  "maxsize c = Some N \<Longrightarrow> 0 < N \<Longrightarrow> int (length (entries c)) \<le> N
   \<Longrightarrow> int (length (entries (insert_result k r c))) \<le> N"
  by (cases "entries c") (auto simp add: insert_result_def)

lemma cached_func_dicts:
  assumes "maxsize c = Some N" "0 \<le> N" "int (length (entries c)) \<le> N"
  shows "dicts (snd (cached_func m obj c args kwds s)) = dicts s
       \<or> (\<exists>c'. maxsize c' = Some N \<and> int (length (entries c')) \<le> N
             \<and> dicts (snd (cached_func m obj c args kwds s))
                 = (dicts s)(obj := (dicts s obj)(method_attrname m \<mapsto> LruFunc c')))"
proof (cases "N = 0")
  case True
  then show ?thesis using assms by (simp add: cached_func_def call_method_simps)
next
  case False
  then have pos: "0 < N" using assms by simp
  show ?thesis
  proof (cases "key_hashable (make_key args kwds (typed c))")
    case False
    then show ?thesis using assms pos by (simp add: cached_func_def)
  next
    case kh: True
    show ?thesis
    proof (cases "cache_get (make_key args kwds (typed c)) (entries c)")
      case (Some link)
      then show ?thesis using assms pos kh
        by (auto simp add: cached_func_def store_simps length_touch maxsize_touch
            intro!: exI[of _ "touch (make_key args kwds (typed c)) link c"])
    next
      case None
      show ?thesis
      proof (cases "call_method m obj args kwds s")
        case (Pair res s')
        have d: "dicts s' = dicts s" using call_method_simps(1)[of m obj args kwds s] Pair by simp
        show ?thesis
        proof (cases res)
          case (Inl e)
          then show ?thesis using assms pos kh None Pair d by (simp add: cached_func_def)
        next
          case (Inr r)
          then show ?thesis using assms pos kh None Pair d
            by (auto simp add: cached_func_def store_simps length_insert_result maxsize_insert_result
                intro!: exI[of _ "insert_result (make_key args kwds (typed c)) r c"])
        qed
      qed
    qed
  qed
qed

lemma wrapper_bounded:
  assumes ms: "method_maxsize m = Some N" and nn: "0 \<le> N"
    and b: "cache_bounded N m obj s"
  shows "cache_bounded N m obj (snd (wrapper ih m obj args kwargs s))"
proof (cases "\<not> caching s \<or> method_disabled m")
  case True
  then show ?thesis using b
    by (auto simp add: wrapper_def cache_bounded_def call_method_simps)
next
  case on: False
  define s1 where "s1 = snd (get_cached_func m obj s)"
  define cf where "cf = fst (get_cached_func m obj s)"
  have g: "get_cached_func m obj s = (cf, s1)" by (simp add: s1_def cf_def)
  have slot: "dicts s1 obj (method_attrname m) = Some cf"
    by (auto simp add: s1_def cf_def get_cached_func_def store_simps Let_def split: option.splits)
  have b1: "cache_bounded N m obj s1"
    using b ms nn
    by (auto simp add: s1_def cache_bounded_def get_cached_func_simps new_lru_def
        split: option.splits slot.splits)
  show ?thesis
  proof (cases "list_all ih args \<and> list_all (\<lambda>(k, v). ih v) kwargs")
    case False
    then show ?thesis using on g b1
      by (auto simp add: wrapper_def cache_bounded_def call_method_simps)
  next
    case True
    show ?thesis
    proof (cases cf)
      case (Plain v)
      then show ?thesis using on g b1 True by (simp add: wrapper_def)
    next
      case (LruFunc c)
      have w: "wrapper ih m obj args kwargs s = cached_func m obj c args kwargs s1"
        using on g True LruFunc by (simp add: wrapper_def)
      have cb: "maxsize c = Some N" "int (length (entries c)) \<le> N"
        using b1 slot LruFunc by (simp_all add: cache_bounded_def)
      from cached_func_dicts[OF cb(1) nn cb(2), of m obj args kwargs s1]
      show ?thesis using b1 unfolding w
        by (auto simp add: cache_bounded_def)
    qed
  qed
qed

lemma call_seq_bounded:
  "method_maxsize m = Some N \<Longrightarrow> 0 \<le> N \<Longrightarrow> cache_bounded N m obj s
   \<Longrightarrow> cache_bounded N m obj (call_seq ih m obj cs s)"
  by (induction cs arbitrary: s) (auto simp add: wrapper_bounded)

lemma wrapper_miss_ok:
  assumes "caching s" "\<not> method_disabled m"
    "list_all ih args" "list_all (\<lambda>(k, v). ih v) kwargs"
    "method_cache m obj s = Some c" "maxsize c \<noteq> Some 0"
    "key_hashable (make_key args kwargs (typed c))"
    "cache_get (make_key args kwargs (typed c)) (entries c) = None"
    "method_func m obj args kwargs (world s) = (Inr r, w')"
  shows "wrapper ih m obj args kwargs s
         = (Inr r, store obj (method_attrname m)
                     (LruFunc (insert_result (make_key args kwargs (typed c)) r c))
                     ((snd (get_cached_func m obj s))\<lparr> world := w', calls := calls s + 1 \<rparr>))"
proof -
  have cm: "cache_miss c args kwargs" using assms(7,8) by (simp add: cache_miss_def)
  show ?thesis
    using assms(6,9)
    by (simp add: wrapper_cached[OF assms(1-5)] cached_func_miss[OF cm] get_cached_func_simps)
qed

lemma wrapper_hit:
  assumes "caching s" "\<not> method_disabled m"
    "list_all ih args" "list_all (\<lambda>(k, v). ih v) kwargs"
    "method_cache m obj s = Some c" "maxsize c \<noteq> Some 0"
    "key_hashable (make_key args kwargs (typed c))"
    "cache_get (make_key args kwargs (typed c)) (entries c) = Some link"
  shows "wrapper ih m obj args kwargs s
         = (Inr (snd link),
            if maxsize c = None then snd (get_cached_func m obj s)
            else store obj (method_attrname m)
                   (LruFunc (touch (make_key args kwargs (typed c)) link c))
                   (snd (get_cached_func m obj s)))"
  using assms(6,7,8)
  by (simp add: wrapper_cached[OF assms(1-5)] cached_func_def)

lemma method_cache_present:
  "dicts s obj (method_attrname m) = Some (LruFunc c) \<Longrightarrow> method_cache m obj s = Some c"
  by (simp add: method_cache_def)

lemma get_cached_func_present:
  "dicts s obj (method_attrname m) = Some cf \<Longrightarrow> get_cached_func m obj s = (cf, s)"
  by (simp add: get_cached_func_def)

lemma cache_get_split:
  "list_all (\<lambda>(j, x). \<not> key_eq j k) pre \<Longrightarrow> key_eq k' k
   \<Longrightarrow> cache_get k (pre @ (k', r) # post) = Some (k', r)"
  by (induction pre) auto

lemma del_key_split:
  "list_all (\<lambda>(j, x). \<not> key_eq j k) pre \<Longrightarrow> key_eq k' k
   \<Longrightarrow> del_key k (pre @ (k', r) # post) = pre @ post"
  by (induction pre) auto

lemma cache_get_absent:
  "list_all (\<lambda>(j, x). \<not> key_eq j k) es \<Longrightarrow> cache_get k es = None"
  by (induction es) auto

text \<open>
  Claim C8. For a cached method declared with \<^verbatim>\<open>maxsize=N\<close> (a bound \<open>N \<ge> 0\<close>), the keyed
  cache of an object never holds more than \<open>N\<close> entries, whatever sequence of calls is made
  on an object that starts without a cache. The entries are kept in order of last use.
  A call whose key equals the key of a stored entry returns the stored result without
  running the function and moves that entry to the most recently used end, the other
  entries keeping their order. A call whose key equals no stored key runs the function once
  and adds its result at the most recently used end; when the cache holds \<open>N\<close> entries by
  then, the entry at the least recently used end is the one dropped.
\<close>

theorem keyed_cache_bounded_lru:
  assumes ms: "method_maxsize m = Some N" and nn: "0 \<le> N"
  shows "(dicts s obj (method_attrname m) = None \<longrightarrow>
            int (length (cache_entries (call_seq ih m obj cs s) obj (method_attrname m))) \<le> N)
       \<and> (caching s \<and> \<not> method_disabled m
          \<and> list_all ih args \<and> list_all (\<lambda>(k, v). ih v) kwargs
          \<and> dicts s obj (method_attrname m) = Some (LruFunc c)
          \<and> maxsize c = Some N \<and> 0 < N
          \<and> key_hashable (make_key args kwargs (typed c))
          \<longrightarrow>
            (\<forall>pre k' r post.
               entries c = pre @ (k', r) # post
               \<and> list_all (\<lambda>(j, x). \<not> key_eq j (make_key args kwargs (typed c))) pre
               \<and> key_eq k' (make_key args kwargs (typed c)) \<longrightarrow>
               wrapper ih m obj args kwargs s
                 = (Inr r, s\<lparr> dicts := (dicts s)(obj := (dicts s obj)(method_attrname m \<mapsto>
                                LruFunc (c\<lparr> entries := pre @ post @ [(k', r)] \<rparr>))) \<rparr>))
          \<and> (\<forall>r w'.
               list_all (\<lambda>(j, x). \<not> key_eq j (make_key args kwargs (typed c))) (entries c)
               \<and> method_func m obj args kwargs (world s) = (Inr r, w') \<longrightarrow>
               wrapper ih m obj args kwargs s
                 = (Inr r, s\<lparr> dicts := (dicts s)(obj := (dicts s obj)(method_attrname m \<mapsto>
                                LruFunc (c\<lparr> entries :=
                                   (if N \<le> int (length (entries c)) then tl (entries c)
                                    else entries c) @ [(make_key args kwargs (typed c), r)] \<rparr>))),
                              world := w', calls := calls s + 1 \<rparr>)))"
proof (intro conjI impI allI)
  assume "dicts s obj (method_attrname m) = None"
  then have "cache_bounded N m obj s" by (simp add: cache_bounded_def)
  from call_seq_bounded[OF ms nn this, of ih cs]
  show "int (length (cache_entries (call_seq ih m obj cs s) obj (method_attrname m))) \<le> N"
    using nn by (auto simp add: cache_bounded_def cache_entries_def split: option.splits slot.splits)
next
  fix pre k' r post
  assume a: "caching s \<and> \<not> method_disabled m
          \<and> list_all ih args \<and> list_all (\<lambda>(k, v). ih v) kwargs
          \<and> dicts s obj (method_attrname m) = Some (LruFunc c)
          \<and> maxsize c = Some N \<and> 0 < N
          \<and> key_hashable (make_key args kwargs (typed c))"
    and h: "entries c = pre @ (k', r) # post
               \<and> list_all (\<lambda>(j, x). \<not> key_eq j (make_key args kwargs (typed c))) pre
               \<and> key_eq k' (make_key args kwargs (typed c))"
  have g: "cache_get (make_key args kwargs (typed c)) (entries c) = Some (k', r)"
    using h by (simp add: cache_get_split)
  have d: "del_key (make_key args kwargs (typed c)) (entries c) = pre @ post"
    using h by (simp add: del_key_split)
  show "wrapper ih m obj args kwargs s
                 = (Inr r, s\<lparr> dicts := (dicts s)(obj := (dicts s obj)(method_attrname m \<mapsto>
                                LruFunc (c\<lparr> entries := pre @ post @ [(k', r)] \<rparr>))) \<rparr>)"
    using wrapper_hit[of s m ih args kwargs obj c "(k', r)"] a g d
    by (simp add: method_cache_present get_cached_func_present touch_def store_def)
next
  fix r w'
  assume a: "caching s \<and> \<not> method_disabled m
          \<and> list_all ih args \<and> list_all (\<lambda>(k, v). ih v) kwargs
          \<and> dicts s obj (method_attrname m) = Some (LruFunc c)
          \<and> maxsize c = Some N \<and> 0 < N
          \<and> key_hashable (make_key args kwargs (typed c))"
    and h: "list_all (\<lambda>(j, x). \<not> key_eq j (make_key args kwargs (typed c))) (entries c)
               \<and> method_func m obj args kwargs (world s) = (Inr r, w')"
  have g: "cache_get (make_key args kwargs (typed c)) (entries c) = None"
    using h by (simp add: cache_get_absent)
  show "wrapper ih m obj args kwargs s
                 = (Inr r, s\<lparr> dicts := (dicts s)(obj := (dicts s obj)(method_attrname m \<mapsto>
                                LruFunc (c\<lparr> entries :=
                                   (if N \<le> int (length (entries c)) then tl (entries c)
                                    else entries c) @ [(make_key args kwargs (typed c), r)] \<rparr>))),
                              world := w', calls := calls s + 1 \<rparr>)"
    using wrapper_miss_ok[of s m ih args kwargs obj c r w'] a h g
    by (simp add: method_cache_present get_cached_func_present insert_result_def store_def)
qed

theorem keyed_cache_bounded_lru_witness:
  "method_maxsize small_method = Some 2
   \<and> int (length (cache_entries (call_seq py_hashable small_method 0
         [([VStr ''A''], []), ([VStr ''B''], []), ([VStr ''C''], [])] cold) 0 ''__cached_h'')) \<le> 2
   \<and> cache_entries (call_seq py_hashable small_method 0
         [([VStr ''A''], []), ([VStr ''B''], []), ([VStr ''C''], [])] cold) 0 ''__cached_h''
      = [(Bare (VStr ''B''), VTuple [VStr ''B'']), (Bare (VStr ''C''), VTuple [VStr ''C''])]
   \<and> cache_entries (call_seq py_hashable small_method 0
         [([VStr ''A''], []), ([VStr ''B''], []), ([VStr ''A''], [])] cold) 0 ''__cached_h''
      = [(Bare (VStr ''B''), VTuple [VStr ''B'']), (Bare (VStr ''A''), VTuple [VStr ''A''])]
   \<and> calls (call_seq py_hashable small_method 0
         [([VStr ''A''], []), ([VStr ''B''], []), ([VStr ''A''], [])] cold) = 2
   \<and> cache_entries (call_seq py_hashable small_method 0
         [([VStr ''A''], []), ([VStr ''B''], []), ([VStr ''A''], []), ([VStr ''C''], [])] cold)
         0 ''__cached_h''
      = [(Bare (VStr ''A''), VTuple [VStr ''A'']), (Bare (VStr ''C''), VTuple [VStr ''C''])]
   \<and> calls (call_seq py_hashable small_method 0
         [([VStr ''A''], []), ([VStr ''A''], [])] cold) = 1"
  using keyed_cache_bounded_lru [where m = small_method and N = 2 and s = cold and obj = 0
      and ih = py_hashable
      and cs = "[([VStr ''A''], []), ([VStr ''B''], []), ([VStr ''C''], [])]"]
    keyed_cache_bounded_lru [where m = small_method and N = 2 and obj = 0 and ih = py_hashable
      and s = "call_seq py_hashable small_method 0 [([VStr ''A''], []), ([VStr ''B''], [])] cold"
      and args = "[VStr ''A'']" and kwargs = "[]"
      and c = "\<lparr> maxsize = Some 2, typed = False,
                 entries = [(Bare (VStr ''A''), VTuple [VStr ''A'']),
                            (Bare (VStr ''B''), VTuple [VStr ''B''])] \<rparr>"]
    keyed_cache_bounded_lru [where m = small_method and N = 2 and obj = 0 and ih = py_hashable
      and s = "call_seq py_hashable small_method 0
                 [([VStr ''A''], []), ([VStr ''B''], []), ([VStr ''A''], [])] cold"
      and args = "[VStr ''C'']" and kwargs = "[]"
      and c = "\<lparr> maxsize = Some 2, typed = False,
                 entries = [(Bare (VStr ''B''), VTuple [VStr ''B'']),
                            (Bare (VStr ''A''), VTuple [VStr ''A''])] \<rparr>"]
  by (simp add: eval_defs)

lemma length_kwd_items: "length (kwd_items kas) = 2 * length kas"
  by (induction kas) (auto simp add: kwd_items_def)

lemma kwd_items_Cons: "kwd_items ((k, v) # kas) = KArg (VStr k) # KArg v # kwd_items kas"
  by (simp add: kwd_items_def)

lemma kwd_items_Nil: "kwd_items [] = []"
  by (simp add: kwd_items_def)

lemma kwd_items_eq:
  "map fst kas = map fst kbs \<Longrightarrow> list_all2 py_eq (map snd kas) (map snd kbs)
   \<Longrightarrow> list_all2 part_eq (kwd_items kas) (kwd_items kbs)"
proof (induction kas arbitrary: kbs)
  case Nil
  then show ?case by (simp add: kwd_items_Nil)
next
  case (Cons a kas)
  then obtain b kbs' where kbs: "kbs = b # kbs'" by (cases kbs) auto
  obtain k v where a: "a = (k, v)" by (cases a)
  obtain k' v' where b: "b = (k', v')" by (cases b)
  show ?case using Cons kbs a b by (simp add: kwd_items_Cons)
qed

lemma args_eq: "list_all2 py_eq as bs \<Longrightarrow> list_all2 part_eq (map KArg as) (map KArg bs)"
  by (simp add: list_all2_map1 list_all2_map2)

lemma types_eq:
  "list_all2 part_eq (map (\<lambda>v. KType (f v)) as) (map (\<lambda>v. KType (f v)) bs)
   \<Longrightarrow> map f as = map f bs"
  by (induction as arbitrary: bs) (auto simp add: list_all2_Cons1)

lemma kw_types_eq:
  "list_all2 part_eq (map (\<lambda>(k, v). KType (py_type v)) kas) (map (\<lambda>(k, v). KType (py_type v)) kbs)
   \<Longrightarrow> map (py_type \<circ> snd) kas = map (py_type \<circ> snd) kbs"
  by (induction kas arbitrary: kbs) (auto simp add: list_all2_Cons1)

lemma typed_keys_differ:
  assumes la: "length as = length bs" and lk: "length kas = length kbs"
    and ty: "map py_type (as @ map snd kas) \<noteq> map py_type (bs @ map snd kbs)"
  shows "\<not> key_eq (make_key as kas True) (make_key bs kbs True)"
proof
  assume k: "key_eq (make_key as kas True) (make_key bs kbs True)"
  show False
  proof (cases "kas = []")
    case True
    then have "kbs = []" using lk by simp
    with True k la have "map py_type as = map py_type bs"
      by (simp add: make_key_def list_all2_append types_eq)
    then show False using ty True \<open>kbs = []\<close> by simp
  next
    case False
    then have nb: "kbs \<noteq> []" using lk by auto
    have "list_all2 part_eq
            (map KArg as @ (KMark # kwd_items kas) @ map (\<lambda>v. KType (py_type v)) as
               @ map (\<lambda>(k, v). KType (py_type v)) kas)
            (map KArg bs @ (KMark # kwd_items kbs) @ map (\<lambda>v. KType (py_type v)) bs
               @ map (\<lambda>(k, v). KType (py_type v)) kbs)"
      using k False nb by (simp add: make_key_def)
    then have "list_all2 part_eq (map (\<lambda>v. KType (py_type v)) as) (map (\<lambda>v. KType (py_type v)) bs)
        \<and> list_all2 part_eq (map (\<lambda>(k, v). KType (py_type v)) kas)
                              (map (\<lambda>(k, v). KType (py_type v)) kbs)"
      using la lk by (simp add: list_all2_append length_kwd_items)
    then have "map py_type as = map py_type bs"
      and "map (py_type \<circ> snd) kas = map (py_type \<circ> snd) kbs"
      using types_eq kw_types_eq by blast+
    then show False using ty by simp
  qed
qed

lemma make_key_untyped:
  "\<not> bare_keyed as kas
   \<Longrightarrow> make_key as kas False
       = HashedSeq (map KArg as @ (if kas \<noteq> [] then KMark # kwd_items kas else []))"
  by (cases as; cases "tl as"; cases kas)
     (auto simp add: make_key_def bare_keyed_def kwd_items_Cons split: list.splits key_part.splits)

lemma make_key_bare:
  "bare_keyed as kas \<Longrightarrow> make_key as kas False = Bare (hd as)"
  by (auto simp add: make_key_def bare_keyed_def)

lemma untyped_keys_equal:
  assumes "list_all2 py_eq as bs" "map fst kas = map fst kbs"
    "list_all2 py_eq (map snd kas) (map snd kbs)"
    "\<not> bare_keyed as kas" "\<not> bare_keyed bs kbs"
  shows "key_eq (make_key as kas False) (make_key bs kbs False)"
proof -
  have l: "length (map KArg as) = length (map KArg bs)"
    using assms(1) by (simp add: list_all2_lengthD)
  have e: "(kas = []) = (kbs = [])" using assms(2) by (metis map_is_Nil_conv)
  show ?thesis
    using assms(1-3) e l
    by (auto simp add: make_key_untyped[OF assms(4)] make_key_untyped[OF assms(5)]
        list_all2_append args_eq kwd_items_eq)
qed

lemma py_eq_int_type:
  "py_eq a b \<Longrightarrow> py_type a = TInt \<or> py_type a = TStr \<Longrightarrow> py_type b = TInt \<or> py_type b = TStr
   \<Longrightarrow> py_type a = py_type b"
  by (cases a; cases b) auto

lemma not_both_bare:
  assumes "list_all2 py_eq as bs" "bare_keyed as kas" "bare_keyed bs kbs"
  shows "map py_type (as @ map snd kas) = map py_type (bs @ map snd kbs)"
proof -
  from assms(2,3) obtain a b where ab: "as = [a]" "bs = [b]" "kas = []" "kbs = []"
    and fa: "py_type a = TInt \<or> py_type a = TStr" and fb: "py_type b = TInt \<or> py_type b = TStr"
    by (auto simp add: bare_keyed_def)
  have "py_eq a b" using assms(1) ab by simp
  from py_eq_int_type[OF this fa fb] show ?thesis using ab by simp
qed

lemma untyped_keys_differ:
  assumes "list_all2 py_eq as bs" "length kas = length kbs"
    "map py_type (as @ map snd kas) \<noteq> map py_type (bs @ map snd kbs)"
    "bare_keyed as kas \<or> bare_keyed bs kbs"
  shows "\<not> key_eq (make_key as kas False) (make_key bs kbs False)"
proof -
  have both: "\<not> (bare_keyed as kas \<and> bare_keyed bs kbs)"
    using assms(1,3) not_both_bare by blast
  show ?thesis
  proof (cases "bare_keyed as kas")
    case True
    then have "\<not> bare_keyed bs kbs" using both by simp
    then show ?thesis using True by (simp add: make_key_untyped make_key_bare)
  next
    case False
    then have "bare_keyed bs kbs" using assms(4) by simp
    then show ?thesis using False by (simp add: make_key_untyped make_key_bare)
  qed
qed

lemma list_all_kw: "list_all (\<lambda>(k, v). P v) kas = list_all P (map snd kas)"
  by (induction kas) auto

lemma key_hashable_make_key:
  assumes "list_all py_hashable as" "list_all (\<lambda>(k, v). py_hashable v) kas"
  shows "key_hashable (make_key as kas t)"
proof -
  have a: "list_all part_hashable (map KArg as)"
    using assms(1) by (induction as) auto
  have b: "list_all part_hashable (kwd_items kas)"
    using assms(2) by (induction kas) (auto simp add: kwd_items_Cons kwd_items_Nil)
  have c: "list_all part_hashable (map (\<lambda>v. KType (py_type v)) as)"
    by (induction as) auto
  have d: "list_all part_hashable (map (\<lambda>(k, v). KType (py_type v)) kas)"
    by (induction kas) auto
  show ?thesis
  proof (cases t)
    case True
    then show ?thesis using a b c d by (simp add: make_key_def)
  next
    case False
    show ?thesis
    proof (cases "bare_keyed as kas")
      case True
      then show ?thesis using False assms(1) by (auto simp add: make_key_bare bare_keyed_def)
    next
      case nb: False
      then show ?thesis using False a b by (simp add: make_key_untyped)
    qed
  qed
qed

lemma insert_result_empty:
  "maxsize c \<noteq> Some 0 \<Longrightarrow> (\<forall>n. maxsize c = Some n \<longrightarrow> 0 \<le> n) \<Longrightarrow> entries c = []
   \<Longrightarrow> entries (insert_result k r c) = [(k, r)]"
  by (auto simp add: insert_result_def split: option.splits)

lemma typed_insert_result: "typed (insert_result k r c) = typed c"
  by (simp add: insert_result_def split: option.splits)

lemma first_call:
  assumes cold: "dicts s obj (method_attrname m) = None"
    and on: "caching s" and en: "\<not> method_disabled m"
    and ih: "list_all ih as" "list_all (\<lambda>(k, v). ih v) kas"
    and ph: "list_all py_hashable as" "list_all (\<lambda>(k, v). py_hashable v) kas"
    and ms: "\<forall>n. method_maxsize m = Some n \<longrightarrow> 1 \<le> n"
    and ra: "method_func m obj as kas (world s) = (Inr ra, w1)"
  shows "\<exists>s1 c1. wrapper ih m obj as kas s = (Inr ra, s1)
       \<and> caching s1 \<and> world s1 = w1 \<and> calls s1 = calls s + 1
       \<and> dicts s1 obj (method_attrname m) = Some (LruFunc c1)
       \<and> maxsize c1 = method_maxsize m \<and> typed c1 = method_typed m
       \<and> entries c1 = [(make_key as kas (method_typed m), ra)]"
proof -
  define c0 where "c0 = new_lru (method_maxsize m) (method_typed m)"
  have mc: "method_cache m obj s = Some c0" using cold by (simp add: method_cache_def c0_def)
  have m0: "maxsize c0 = method_maxsize m" using ms
    by (cases "method_maxsize m") (auto simp add: c0_def new_lru_def max_def)
  have t0: "typed c0 = method_typed m" and e0: "entries c0 = []"
    by (simp_all add: c0_def new_lru_def)
  have nz: "maxsize c0 \<noteq> Some 0" using ms m0 by auto
  have nn: "\<forall>n. maxsize c0 = Some n \<longrightarrow> 0 \<le> n" using ms m0 by auto
  have kh: "key_hashable (make_key as kas (typed c0))"
    using ph by (rule key_hashable_make_key)
  have miss: "cache_get (make_key as kas (typed c0)) (entries c0) = None" by (simp add: e0)
  define c1 where "c1 = insert_result (make_key as kas (typed c0)) ra c0"
  define s1 where "s1 = store obj (method_attrname m) (LruFunc c1)
                     ((snd (get_cached_func m obj s))\<lparr> world := w1, calls := calls s + 1 \<rparr>)"
  have w: "wrapper ih m obj as kas s = (Inr ra, s1)"
    unfolding s1_def c1_def by (rule wrapper_miss_ok[OF on en ih mc nz kh miss ra])
  have "caching s1" "world s1 = w1" "calls s1 = calls s + 1"
    "dicts s1 obj (method_attrname m) = Some (LruFunc c1)"
    using on by (simp_all add: s1_def store_simps get_cached_func_simps)
  moreover have "maxsize c1 = method_maxsize m" "typed c1 = method_typed m"
    by (simp_all add: c1_def maxsize_insert_result typed_insert_result m0 t0)
  moreover have "entries c1 = [(make_key as kas (method_typed m), ra)]"
    using insert_result_empty[OF nz nn e0] by (simp add: c1_def t0)
  ultimately show ?thesis using w by blast
qed

text \<open>
  Claim C7, as amended. Two calls of a cached method on an object with no cache yet, with
  caching on, whose arguments are equal value by value (same keyword names) but differ in
  the type of some value, all hashable, the first returning normally.
  With \<^verbatim>\<open>typed=True\<close> (and room for two entries) the two calls are cached separately: the
  function runs once for each and the cache holds two entries.
  With \<^verbatim>\<open>typed=False\<close> the two calls share one entry and the function runs once, the second
  call returning the first result, unless one of the calls is keyed by its bare argument
  (a single positional argument of type int or str and no keyword argument): then the two
  calls are cached separately as well.
\<close>

theorem equal_values_of_different_type:
  assumes cold: "dicts s obj (method_attrname m) = None"
    and on: "caching s" and en: "\<not> method_disabled m"
    and eq: "list_all2 py_eq as bs" "map fst kas = map fst kbs"
            "list_all2 py_eq (map snd kas) (map snd kbs)"
    and ty: "map py_type (as @ map snd kas) \<noteq> map py_type (bs @ map snd kbs)"
    and iha: "list_all ih as" "list_all (\<lambda>(k, v). ih v) kas"
    and ihb: "list_all ih bs" "list_all (\<lambda>(k, v). ih v) kbs"
    and pha: "list_all py_hashable as" "list_all (\<lambda>(k, v). py_hashable v) kas"
    and phb: "list_all py_hashable bs" "list_all (\<lambda>(k, v). py_hashable v) kbs"
    and ra: "method_func m obj as kas (world s) = (Inr ra, wa)"
  shows "(method_typed m \<and> (\<forall>n. method_maxsize m = Some n \<longrightarrow> 2 \<le> n)
          \<and> method_func m obj bs kbs wa = (Inr rb, wb)
          \<longrightarrow> calls (snd (wrapper ih m obj bs kbs (snd (wrapper ih m obj as kas s)))) = calls s + 2
            \<and> cache_entries (snd (wrapper ih m obj bs kbs (snd (wrapper ih m obj as kas s))))
                 obj (method_attrname m)
               = [(make_key as kas True, ra), (make_key bs kbs True, rb)])
       \<and> (\<not> method_typed m \<and> (\<forall>n. method_maxsize m = Some n \<longrightarrow> 1 \<le> n)
          \<and> \<not> bare_keyed as kas \<and> \<not> bare_keyed bs kbs
          \<longrightarrow> fst (wrapper ih m obj bs kbs (snd (wrapper ih m obj as kas s))) = Inr ra
            \<and> calls (snd (wrapper ih m obj bs kbs (snd (wrapper ih m obj as kas s)))) = calls s + 1
            \<and> cache_entries (snd (wrapper ih m obj bs kbs (snd (wrapper ih m obj as kas s))))
                 obj (method_attrname m)
               = [(make_key as kas False, ra)])
       \<and> (\<not> method_typed m \<and> (\<forall>n. method_maxsize m = Some n \<longrightarrow> 2 \<le> n)
          \<and> (bare_keyed as kas \<or> bare_keyed bs kbs)
          \<and> method_func m obj bs kbs wa = (Inr rb, wb)
          \<longrightarrow> calls (snd (wrapper ih m obj bs kbs (snd (wrapper ih m obj as kas s)))) = calls s + 2
            \<and> cache_entries (snd (wrapper ih m obj bs kbs (snd (wrapper ih m obj as kas s))))
                 obj (method_attrname m)
               = [(make_key as kas False, ra), (make_key bs kbs False, rb)])"
proof -
  have la: "length as = length bs" using eq(1) by (rule list_all2_lengthD)
  have lk: "length kas = length kbs" using eq(2) by (metis length_map)
  have separate: "calls (snd (wrapper ih m obj bs kbs (snd (wrapper ih m obj as kas s)))) = calls s + 2
            \<and> cache_entries (snd (wrapper ih m obj bs kbs (snd (wrapper ih m obj as kas s))))
                 obj (method_attrname m)
               = [(make_key as kas (method_typed m), ra), (make_key bs kbs (method_typed m), rb)]"
    if ms: "\<forall>n. method_maxsize m = Some n \<longrightarrow> 2 \<le> n"
      and rb: "method_func m obj bs kbs wa = (Inr rb, wb)"
      and ne: "\<not> key_eq (make_key as kas (method_typed m)) (make_key bs kbs (method_typed m))"
  proof -
    have ms1: "\<forall>n. method_maxsize m = Some n \<longrightarrow> 1 \<le> n" using ms by force
    from first_call[OF cold on en iha pha ms1 ra]
    obtain s1 c1 where wr1: "wrapper ih m obj as kas s = (Inr ra, s1)"
      and s1: "caching s1" "world s1 = wa" "calls s1 = calls s + 1"
        "dicts s1 obj (method_attrname m) = Some (LruFunc c1)"
      and c1: "maxsize c1 = method_maxsize m" "typed c1 = method_typed m"
        "entries c1 = [(make_key as kas (method_typed m), ra)]"
      by blast
    have mc: "method_cache m obj s1 = Some c1" using s1(4) by (rule method_cache_present)
    have nz: "maxsize c1 \<noteq> Some 0" using ms c1(1) by auto
    have kh: "key_hashable (make_key bs kbs (typed c1))" using phb by (rule key_hashable_make_key)
    have miss: "cache_get (make_key bs kbs (typed c1)) (entries c1) = None"
      using ne by (simp add: c1)
    have rb': "method_func m obj bs kbs (world s1) = (Inr rb, wb)" using rb s1(2) by simp
    note wr2 = wrapper_miss_ok[OF s1(1) en ihb mc nz kh miss rb']
    have ins: "entries (insert_result (make_key bs kbs (typed c1)) rb c1)
        = [(make_key as kas (method_typed m), ra), (make_key bs kbs (method_typed m), rb)]"
      using ms c1 ne by (auto simp add: insert_result_def split: option.splits)
    show ?thesis
      unfolding wr1 snd_conv wr2
      by (simp add: store_simps cache_entries_def ins s1(3))
  qed
  have shared: "fst (wrapper ih m obj bs kbs (snd (wrapper ih m obj as kas s))) = Inr ra
            \<and> calls (snd (wrapper ih m obj bs kbs (snd (wrapper ih m obj as kas s)))) = calls s + 1
            \<and> cache_entries (snd (wrapper ih m obj bs kbs (snd (wrapper ih m obj as kas s))))
                 obj (method_attrname m)
               = [(make_key as kas (method_typed m), ra)]"
    if ms1: "\<forall>n. method_maxsize m = Some n \<longrightarrow> 1 \<le> n"
      and ke: "key_eq (make_key as kas (method_typed m)) (make_key bs kbs (method_typed m))"
  proof -
    from first_call[OF cold on en iha pha ms1 ra]
    obtain s1 c1 where wr1: "wrapper ih m obj as kas s = (Inr ra, s1)"
      and s1: "caching s1" "world s1 = wa" "calls s1 = calls s + 1"
        "dicts s1 obj (method_attrname m) = Some (LruFunc c1)"
      and c1: "maxsize c1 = method_maxsize m" "typed c1 = method_typed m"
        "entries c1 = [(make_key as kas (method_typed m), ra)]"
      by blast
    have mc: "method_cache m obj s1 = Some c1" using s1(4) by (rule method_cache_present)
    have nz: "maxsize c1 \<noteq> Some 0" using ms1 c1(1) by auto
    have kh: "key_hashable (make_key bs kbs (typed c1))" using phb by (rule key_hashable_make_key)
    have hit: "cache_get (make_key bs kbs (typed c1)) (entries c1)
        = Some (make_key as kas (method_typed m), ra)"
      using ke by (simp add: c1)
    note wr2 = wrapper_hit[OF s1(1) en ihb mc nz kh hit]
    show ?thesis
      unfolding wr1 snd_conv wr2
      using ke s1
      by (auto simp add: store_simps cache_entries_def touch_def c1 get_cached_func_present)
  qed
  show ?thesis
  proof (intro conjI impI)
    assume a: "method_typed m \<and> (\<forall>n. method_maxsize m = Some n \<longrightarrow> 2 \<le> n)
          \<and> method_func m obj bs kbs wa = (Inr rb, wb)"
    have "\<not> key_eq (make_key as kas (method_typed m)) (make_key bs kbs (method_typed m))"
      using typed_keys_differ[OF la lk ty] a by simp
    from separate[OF _ _ this] a
    show "calls (snd (wrapper ih m obj bs kbs (snd (wrapper ih m obj as kas s)))) = calls s + 2"
      and "cache_entries (snd (wrapper ih m obj bs kbs (snd (wrapper ih m obj as kas s))))
                 obj (method_attrname m)
               = [(make_key as kas True, ra), (make_key bs kbs True, rb)]"
      by simp_all
  next
    assume a: "\<not> method_typed m \<and> (\<forall>n. method_maxsize m = Some n \<longrightarrow> 1 \<le> n)
          \<and> \<not> bare_keyed as kas \<and> \<not> bare_keyed bs kbs"
    have "key_eq (make_key as kas (method_typed m)) (make_key bs kbs (method_typed m))"
      using untyped_keys_equal[OF eq] a by simp
    from shared[OF _ this] a
    show "fst (wrapper ih m obj bs kbs (snd (wrapper ih m obj as kas s))) = Inr ra"
      and "calls (snd (wrapper ih m obj bs kbs (snd (wrapper ih m obj as kas s)))) = calls s + 1"
      and "cache_entries (snd (wrapper ih m obj bs kbs (snd (wrapper ih m obj as kas s))))
                 obj (method_attrname m)
               = [(make_key as kas False, ra)]"
      by simp_all
  next
    assume a: "\<not> method_typed m \<and> (\<forall>n. method_maxsize m = Some n \<longrightarrow> 2 \<le> n)
          \<and> (bare_keyed as kas \<or> bare_keyed bs kbs)
          \<and> method_func m obj bs kbs wa = (Inr rb, wb)"
    have "\<not> key_eq (make_key as kas (method_typed m)) (make_key bs kbs (method_typed m))"
      using untyped_keys_differ[OF eq(1) lk ty] a by simp
    from separate[OF _ _ this] a
    show "calls (snd (wrapper ih m obj bs kbs (snd (wrapper ih m obj as kas s)))) = calls s + 2"
      and "cache_entries (snd (wrapper ih m obj bs kbs (snd (wrapper ih m obj as kas s))))
                 obj (method_attrname m)
               = [(make_key as kas False, ra), (make_key bs kbs False, rb)]"
      by simp_all
  qed
qed

text \<open>
  Claim C7 as stated fails for its own example: with \<^verbatim>\<open>typed=False\<close> the calls
  \<^verbatim>\<open>o.f(1)\<close> and \<^verbatim>\<open>o.f(1.0)\<close> run the function twice and leave two entries, since
  \<^verbatim>\<open>_make_key\<close> keys the first call by the bare int and the second by a sequence.
\<close>

theorem untyped_int_and_float_cached_separately:
  "py_eq (VInt 1) (VFloat 1) \<and> \<not> method_typed echo_method
   \<and> calls (snd (wrapper py_hashable echo_method 0 [VFloat 1] []
                (snd (wrapper py_hashable echo_method 0 [VInt 1] [] cold)))) = 2
   \<and> cache_entries (snd (wrapper py_hashable echo_method 0 [VFloat 1] []
                (snd (wrapper py_hashable echo_method 0 [VInt 1] [] cold)))) 0 ''__cached_f''
      = [(Bare (VInt 1), VInt 1), (HashedSeq [KArg (VFloat 1)], VInt 1)]"
  by (simp add: eval_defs)

theorem equal_values_of_different_type_witness:
  "calls (snd (wrapper py_hashable typed_method 0 [VFloat 1] []
                (snd (wrapper py_hashable typed_method 0 [VInt 1] [] cold)))) = 2
   \<and> length (cache_entries (snd (wrapper py_hashable typed_method 0 [VFloat 1] []
                (snd (wrapper py_hashable typed_method 0 [VInt 1] [] cold)))) 0 ''__cached_f'') = 2
   \<and> calls (snd (wrapper py_hashable echo_method 0 [VFloat 1, VInt 2] []
                (snd (wrapper py_hashable echo_method 0 [VInt 1, VInt 2] [] cold)))) = 1
   \<and> length (cache_entries (snd (wrapper py_hashable echo_method 0 [VFloat 1, VInt 2] []
                (snd (wrapper py_hashable echo_method 0 [VInt 1, VInt 2] [] cold)))) 0 ''__cached_f'') = 1"
  using equal_values_of_different_type [where s = cold and obj = 0 and m = typed_method
      and as = "[VInt 1]" and bs = "[VFloat 1]" and kas = "[]" and kbs = "[]"
      and ih = py_hashable and ra = "VInt 1" and wa = 1 and rb = "VInt 1" and wb = 2]
    equal_values_of_different_type [where s = cold and obj = 0 and m = echo_method
      and as = "[VInt 1, VInt 2]" and bs = "[VFloat 1, VInt 2]" and kas = "[]" and kbs = "[]"
      and ih = py_hashable and ra = "VInt 2" and wa = 1 and rb = "VInt 2" and wb = 2]
  by (simp add: eval_defs)

section \<open>Properties of the traversal\<close>

lemma only_child_attrs_refl: "only_child_attrs h h"
  by (simp add: only_child_attrs_def)

lemma only_child_attrs_trans:
  assumes "only_child_attrs h h1" "only_child_attrs h1 h2"
  shows "only_child_attrs h h2"
  unfolding only_child_attrs_def
proof (intro allI conjI impI)
  fix a assume n: "''child_cls'' \<notin> dom (h a)"
  then have "h1 a = h a" using assms(1) by (simp add: only_child_attrs_def)
  then show "h2 a = h a" using assms(2) n by (simp add: only_child_attrs_def)
next
  fix a k assume "k \<noteq> ''child_attrs''"
  then show "h2 a k = h a k" using assms by (simp add: only_child_attrs_def)
qed

lemma only_child_attrs_update:
  assumes "only_child_attrs h h'" "''child_cls'' \<in> dom (h a)"
  shows "only_child_attrs h (h'(a := (h' a)(''child_attrs'' \<mapsto> e)))"
  using assms by (auto simp add: only_child_attrs_def)

lemma visit_only_child_attrs:
  assumes "\<And>child h. only_child_attrs h (snd (rec child h))"
  shows "only_child_attrs h (snd (visit rec key v attr pr acc h))"
proof (cases pr)
  case None
  then show ?thesis by (simp add: visit_def only_child_attrs_refl)
next
  case (Some a)
  show ?thesis
  proof (cases "h a ''child_cls''")
    case None
    then show ?thesis using Some by (simp add: visit_def Let_def only_child_attrs_refl)
  next
    case e: (Some e)
    then have d: "''child_cls'' \<in> dom (h a)" by auto
    show ?thesis
    proof (cases "\<exists>c. e = Val (VType c)")
      case False
      then show ?thesis using Some e
        by (auto simp add: visit_def Let_def only_child_attrs_refl
            split: entry.splits pyval.splits)
    next
      case True
      then obtain c where c: "e = Val (VType c)" by blast
      obtain r h' where r: "rec (VType c) h = (r, h')" by (cases "rec (VType c) h")
      have g: "only_child_attrs h h'" using assms[of h "VType c"] r by simp
      show ?thesis using Some e c r g only_child_attrs_update[OF g d]
        by (cases r) (simp_all add: visit_def Let_def)
    qed
  qed
qed

lemma visit_all_only_child_attrs:
  assumes "\<And>child h. only_child_attrs h (snd (rec child h))"
  shows "only_child_attrs h (snd (visit_all rec key v ms acc h))"
proof (induction ms arbitrary: acc h)
  case Nil
  then show ?case by (simp add: only_child_attrs_refl)
next
  case (Cons m ms)
  obtain attr pr where m: "m = (attr, pr)" by (cases m)
  obtain r h1 where r: "visit rec key v attr pr acc h = (r, h1)"
    by (cases "visit rec key v attr pr acc h")
  have g: "only_child_attrs h h1"
    using visit_only_child_attrs[of rec h key v attr pr acc, OF assms] r by simp
  show ?case
  proof (cases r)
    case (Inl x)
    then show ?thesis using m r g by simp
  next
    case (Inr acc')
    then show ?thesis using m r g Cons.IH[where acc = acc' and h = h1] only_child_attrs_trans by auto
  qed
qed

lemma traverse_only_child_attrs:
  "only_child_attrs h (snd (traverse_attr_kwargs d ct cls key v h))"
proof (induction d arbitrary: cls v h)
  case 0
  then show ?case by (simp add: only_child_attrs_refl)
next
  case (Suc d)
  show ?case
  proof (cases cls)
    case (VType c)
    then show ?thesis
      using visit_all_only_child_attrs[of "\<lambda>child. traverse_attr_kwargs d ct child key (normalize_value v)"]
        Suc.IH by simp
  qed (simp_all add: only_child_attrs_refl)
qed

lemma selected_only_child_attrs:
  assumes "only_child_attrs h h1"
  shows "selected h1 k v a = selected h k v a"
proof (cases "''child_cls'' \<in> dom (h a)")
  case True
  then have "h1 a ''child_cls'' = h a ''child_cls''"
    using assms by (simp add: only_child_attrs_def)
  then have "''child_cls'' \<in> dom (h1 a)" using True by (auto simp add: dom_def)
  then show ?thesis using True by (simp add: selected_def)
next
  case False
  then have "h1 a = h a" using assms by (simp add: only_child_attrs_def)
  then show ?thesis by (simp add: selected_def)
qed

lemma visit_dom:
  assumes "visit rec (Some k) v attr pr acc h = (Inr acc', h')" "v \<noteq> VNone"
  shows "dom acc' = dom acc \<union> (case pr of None \<Rightarrow> {} | Some a \<Rightarrow> if selected h k v a then {attr} else {})"
proof (cases pr)
  case None
  then show ?thesis using assms by (simp add: visit_def)
next
  case (Some a)
  show ?thesis
  proof (cases "h a ''child_cls''")
    case None
    then show ?thesis using assms Some
      by (auto simp add: visit_def Let_def selected_def dom_def split: option.splits if_splits)
  next
    case e: (Some e)
    show ?thesis
    proof (cases "\<exists>c. e = Val (VType c)")
      case False
      then have "fst (visit rec (Some k) v attr pr acc h) = Inl TypeError"
        using Some e by (auto simp add: visit_def Let_def split: entry.splits pyval.splits)
      then show ?thesis using assms by simp
    next
      case True
      then obtain c where c: "e = Val (VType c)" by blast
      obtain r hr where r: "rec (VType c) h = (r, hr)" by (cases "rec (VType c) h")
      show ?thesis using assms Some e c r
        by (cases r) (auto simp add: visit_def Let_def selected_def dom_def split: option.splits if_splits)
    qed
  qed
qed

lemma visit_all_dom:
  assumes "\<And>child h. only_child_attrs h (snd (rec child h))"
    and "v \<noteq> VNone"
  shows "visit_all rec (Some k) v ms acc h = (Inr acc', h')
    \<Longrightarrow> dom acc' = dom acc \<union> {attr. \<exists>a. (attr, Some a) \<in> set ms \<and> selected h k v a}"
proof (induction ms arbitrary: acc h)
  case Nil
  then show ?case by simp
next
  case (Cons m ms)
  obtain attr pr where m: "m = (attr, pr)" by (cases m)
  obtain r h1 where r: "visit rec (Some k) v attr pr acc h = (r, h1)"
    by (cases "visit rec (Some k) v attr pr acc h")
  have g: "only_child_attrs h h1"
    using visit_only_child_attrs[of rec h "Some k" v attr pr acc, OF assms(1)] r by simp
  show ?case
  proof (cases r)
    case (Inl x)
    then show ?thesis using Cons.prems m r by simp
  next
    case (Inr acc1)
    have d1: "dom acc1 = dom acc \<union> (case pr of None \<Rightarrow> {} | Some a \<Rightarrow> if selected h k v a then {attr} else {})"
      using visit_dom[of rec k v attr pr acc h acc1 h1] r Inr assms(2) by simp
    have "visit_all rec (Some k) v ms acc1 h1 = (Inr acc', h')"
      using Cons.prems m r Inr by simp
    from Cons.IH[OF this]
    have d2: "dom acc' = dom acc1 \<union> {attr. \<exists>a. (attr, Some a) \<in> set ms \<and> selected h k v a}"
      by (simp add: selected_only_child_attrs[OF g])
    show ?thesis unfolding d2 d1 m by (cases pr) auto
  qed
qed

lemma normalize_value_not_None: "v \<noteq> VNone \<Longrightarrow> normalize_value v \<noteq> VNone"
  by (auto simp add: normalize_value_def)

lemma child_ranked_only_child_attrs:
  assumes "child_ranked ct h rk" "only_child_attrs h h1"
  shows "child_ranked ct h1 rk"
proof -
  have "h1 a ''child_cls'' = h a ''child_cls''" for a
    using assms(2) by (simp add: only_child_attrs_def)
  then show ?thesis using assms(1) by (simp add: child_ranked_def)
qed

lemma visit_returns:
  assumes cr: "child_ranked ct h rk" and mem: "(attr, pr) \<in> set (ct c)"
    and rec: "\<And>c'. rk c' < rk c \<Longrightarrow> \<exists>res h2. rec (VType c') h = (Inr res, h2)"
  shows "\<exists>acc' h'. visit rec key v attr pr acc h = (Inr acc', h')"
proof (cases pr)
  case None
  then show ?thesis by (simp add: visit_def)
next
  case (Some a)
  show ?thesis
  proof (cases "h a ''child_cls''")
    case None
    then show ?thesis using Some by (simp add: visit_def Let_def)
  next
    case e: (Some e)
    then obtain c' where c': "e = Val (VType c')" "rk c' < rk c"
      using cr mem Some unfolding child_ranked_def by blast
    from rec[OF c'(2)] obtain res h2 where "rec (VType c') h = (Inr res, h2)" by blast
    then show ?thesis using Some e c'(1) by (simp add: visit_def Let_def)
  qed
qed

lemma visit_all_returns:
  assumes rec: "\<And>c' h1. rk c' < rk c \<Longrightarrow> child_ranked ct h1 rk
                  \<Longrightarrow> \<exists>res h2. rec (VType c') h1 = (Inr res, h2)"
    and fr: "\<And>child h. only_child_attrs h (snd (rec child h))"
  shows "child_ranked ct h rk \<Longrightarrow> set ms \<subseteq> set (ct c)
    \<Longrightarrow> \<exists>acc' h'. visit_all rec key v ms acc h = (Inr acc', h')"
proof (induction ms arbitrary: acc h)
  case Nil
  then show ?case by simp
next
  case (Cons m ms)
  obtain attr pr where m: "m = (attr, pr)" by (cases m)
  have mem: "(attr, pr) \<in> set (ct c)" using Cons.prems(2) m by simp
  have "\<exists>acc' h'. visit rec key v attr pr acc h = (Inr acc', h')"
  proof (rule visit_returns[OF Cons.prems(1) mem])
    fix c' assume "rk c' < rk c"
    from rec[OF this Cons.prems(1)] show "\<exists>res h2. rec (VType c') h = (Inr res, h2)" .
  qed
  then obtain acc1 h1 where r: "visit rec key v attr pr acc h = (Inr acc1, h1)" by blast
  have g: "only_child_attrs h h1"
    using visit_only_child_attrs[of rec h key v attr pr acc, OF fr] r by simp
  have cr1: "child_ranked ct h1 rk"
    using child_ranked_only_child_attrs[OF Cons.prems(1) g] .
  have "set ms \<subseteq> set (ct c)" using Cons.prems(2) by simp
  from Cons.IH[OF cr1 this, of acc1] show ?case using m r by simp
qed

lemma traverse_returns:
  "child_ranked ct h rk \<Longrightarrow> rk c < d
   \<Longrightarrow> \<exists>result h'. traverse_attr_kwargs d ct (VType c) key v h = (Inr result, h')"
proof (induction d arbitrary: c h v)
  case 0
  then show ?case by simp
next
  case (Suc d)
  have rec: "\<exists>res h2. traverse_attr_kwargs d ct (VType c') key (normalize_value v) h1 = (Inr res, h2)"
    if "rk c' < rk c" "child_ranked ct h1 rk" for c' h1
    using Suc.IH[OF that(2), of c' "normalize_value v"] that(1) Suc.prems(2) by simp
  have "\<exists>acc' h'. visit_all (\<lambda>child. traverse_attr_kwargs d ct child key (normalize_value v))
            key (normalize_value v) (ct c) Map.empty h = (Inr acc', h')"
  proof (rule visit_all_returns[where rk = rk and c = c and ct = ct])
    fix c' h1 assume "rk c' < rk c" "child_ranked ct h1 rk"
    then show "\<exists>res h2. traverse_attr_kwargs d ct (VType c') key (normalize_value v) h1 = (Inr res, h2)"
      by (rule rec)
  next
    fix child h
    show "only_child_attrs h (snd (traverse_attr_kwargs d ct child key (normalize_value v) h))"
      by (rule traverse_only_child_attrs)
  next
    show "child_ranked ct h rk" by (rule Suc.prems(1))
  next
    show "set (ct c) \<subseteq> set (ct c)" by simp
  qed
  then show ?case by simp
qed

lemma cfg_match_iff:
  "v \<noteq> VNone \<Longrightarrow>
   cfg_match cfg k v = (\<exists>x. cfg k = Some (Val x) \<and> py_in x (filter_values v))"
  by (cases v; cases "cfg k")
     (auto simp add: cfg_match_def normalize_value_def entry_in_def filter_values_def
        split: entry.splits)

text \<open>
  Claim C4, as amended. Let the declared child classes be classes and nest less deep than
  the interpreter allows calls (\<open>child_ranked\<close>, \<open>rk c < d\<close>). Then
  \<^verbatim>\<open>traverse_attr_kwargs(C, K, V)\<close> with filter values \<open>V\<close> returns a mapping, and the
  mapping contains exactly the annotated members of \<open>C\<close> whose configuration has the key
  \<open>K\<close> with a value among the filter values, together with every member whose
  configuration has a \<^verbatim>\<open>child_cls\<close> entry: such a member is in the result whatever its
  configuration says about \<open>K\<close>. The filter values are the elements of \<open>V\<close> when \<open>V\<close> is a
  tuple; any other \<open>V\<close>, a list included, is the single filter value.
\<close>

theorem traverse_filter:
  assumes cr: "child_ranked ct h rk" and fuel: "rk c < d"
    and v: "v \<noteq> VNone"
  shows "\<exists>result h'. traverse_attr_kwargs d ct (VType c) (Some k) v h = (Inr result, h')
           \<and> dom result = {attr. \<exists>a. (attr, Some a) \<in> set (ct c)
                 \<and> ((\<exists>x. h a k = Some (Val x) \<and> py_in x (filter_values v))
                    \<or> ''child_cls'' \<in> dom (h a))}"
proof -
  from traverse_returns[OF cr fuel, of "Some k" v]
  obtain result h' where r: "traverse_attr_kwargs d ct (VType c) (Some k) v h = (Inr result, h')"
    by blast
  obtain d' where d: "d = Suc d'" using fuel by (cases d) auto
  have "visit_all (\<lambda>child. traverse_attr_kwargs d' ct child (Some k) (normalize_value v))
          (Some k) (normalize_value v) (ct c) Map.empty h = (Inr result, h')"
    using r d by simp
  from visit_all_dom[OF traverse_only_child_attrs normalize_value_not_None[OF v] this]
  have "dom result = {attr. \<exists>a. (attr, Some a) \<in> set (ct c)
                 \<and> (cfg_match (h a) k v \<or> ''child_cls'' \<in> dom (h a))}"
    by (auto simp add: selected_def cfg_match_def split: option.splits)
  then have "dom result = {attr. \<exists>a. (attr, Some a) \<in> set (ct c)
                 \<and> ((\<exists>x. h a k = Some (Val x) \<and> py_in x (filter_values v))
                    \<or> ''child_cls'' \<in> dom (h a))}"
    by (simp add: cfg_match_iff[OF v])
  then show ?thesis using r by blast
qed

lemma visit_values:
  assumes "visit rec key v nm pr acc h = (Inr acc1, h1)" "acc1 attr = Some a"
  shows "acc attr = Some a \<or> (attr = nm \<and> pr = Some a)"
proof (cases pr)
  case None
  then show ?thesis using assms by (simp add: visit_def)
next
  case (Some b)
  show ?thesis
  proof (cases "h b ''child_cls''")
    case None
    then show ?thesis using assms Some
      by (auto simp add: visit_def Let_def split: option.splits if_splits)
  next
    case e: (Some e)
    show ?thesis
    proof (cases "\<exists>c. e = Val (VType c)")
      case False
      then have "fst (visit rec key v nm pr acc h) = Inl TypeError"
        using Some e by (auto simp add: visit_def Let_def split: entry.splits pyval.splits)
      then show ?thesis using assms by simp
    next
      case True
      then obtain c where c: "e = Val (VType c)" by blast
      obtain r hr where r: "rec (VType c) h = (r, hr)" by (cases "rec (VType c) h")
      show ?thesis using assms Some e c r
        by (cases r) (auto simp add: visit_def Let_def split: option.splits if_splits)
    qed
  qed
qed

lemma visit_all_values:
  "visit_all rec key v ms acc h = (Inr acc', h') \<Longrightarrow> acc' attr = Some a
   \<Longrightarrow> acc attr = Some a \<or> (attr, Some a) \<in> set ms"
proof (induction ms arbitrary: acc h)
  case Nil
  then show ?case by simp
next
  case (Cons m ms)
  obtain nm pr where m: "m = (nm, pr)" by (cases m)
  obtain r h1 where r: "visit rec key v nm pr acc h = (r, h1)"
    by (cases "visit rec key v nm pr acc h")
  show ?case
  proof (cases r)
    case (Inl x)
    then show ?thesis using Cons.prems m r by simp
  next
    case (Inr acc1)
    have "visit_all rec key v ms acc1 h1 = (Inr acc', h')"
      using Cons.prems m r Inr by simp
    from Cons.IH[OF this Cons.prems(2)]
    have "acc1 attr = Some a \<or> (attr, Some a) \<in> set ms" .
    moreover have "acc1 attr = Some a \<Longrightarrow> acc attr = Some a \<or> (attr = nm \<and> pr = Some a)"
      using visit_values[of rec key v nm pr acc h acc1 h1 attr a] r Inr by simp
    ultimately show ?thesis using m by auto
  qed
qed

text \<open>
  Claim C5, as amended. After a traversal call, whether it returned or raised, every
  configuration in the store has under every key other than \<^verbatim>\<open>child_attrs\<close> the entry it
  had before, and the configuration of a member without \<^verbatim>\<open>child_cls\<close> is unchanged
  altogether. The mapping returned is built from the empty mapping in each call, and each of
  its values is the address of a member's own configuration: the configurations are shared
  with the result, not copied.
\<close>

theorem traverse_keeps_configuration:
  "(k \<noteq> ''child_attrs'' \<longrightarrow> snd (traverse_attr_kwargs d ct cls key v h) a k = h a k)
   \<and> (''child_cls'' \<notin> dom (h a) \<longrightarrow> snd (traverse_attr_kwargs d ct cls key v h) a = h a)
   \<and> (fst (traverse_attr_kwargs d ct (VType c) key v h) = Inr result \<and> result attr = Some b
        \<longrightarrow> (attr, Some b) \<in> set (ct c))"
proof -
  have "only_child_attrs h (snd (traverse_attr_kwargs d ct cls key v h))"
    by (rule traverse_only_child_attrs)
  then have 1: "k \<noteq> ''child_attrs'' \<longrightarrow> snd (traverse_attr_kwargs d ct cls key v h) a k = h a k"
    and 2: "''child_cls'' \<notin> dom (h a) \<longrightarrow> snd (traverse_attr_kwargs d ct cls key v h) a = h a"
    by (simp_all add: only_child_attrs_def)
  have 3: "(attr, Some b) \<in> set (ct c)"
    if "fst (traverse_attr_kwargs d ct (VType c) key v h) = Inr result" "result attr = Some b"
  proof (cases d)
    case 0
    then show ?thesis using that by simp
  next
    case (Suc d')
    define h' where "h' = snd (traverse_attr_kwargs d ct (VType c) key v h)"
    have "traverse_attr_kwargs d ct (VType c) key v h = (Inr result, h')"
      using that(1) by (simp add: h'_def prod_eq_iff)
    then have "visit_all (\<lambda>child. traverse_attr_kwargs d' ct child key (normalize_value v))
          key (normalize_value v) (ct c) Map.empty h = (Inr result, h')"
      using Suc by simp
    from visit_all_values[OF this that(2)] show ?thesis by simp
  qed
  show ?thesis using 1 2 3 by blast
qed

lemma child_ranked_ct0: "child_ranked ct0 h0 rk0"
  unfolding child_ranked_def
proof (intro allI impI)
  fix c attr a e
  assume "(attr, Some a) \<in> set (ct0 c) \<and> h0 a ''child_cls'' = Some e"
  then show "\<exists>c'. e = Val (VType c') \<and> rk0 c' < rk0 c"
    by (auto simp add: ct0_def h0_def rk0_def split: if_splits)
qed

text \<open>
  Claim C4 as stated fails twice. The member \<^verbatim>\<open>child\<close> has no key \<^verbatim>\<open>k\<close> in its
  configuration and is in the result of the traversal filtered by \<^verbatim>\<open>k\<close>. And with the
  filter values given as the list \<^verbatim>\<open>[1, 2]\<close> the member \<^verbatim>\<open>a\<close>, whose \<^verbatim>\<open>k\<close> is 1, is
  not in the result: lines 272 and 273 wrap the list into a tuple of one element.
\<close>

theorem child_member_and_list_filter:
  "h0 3 ''k'' = None
   \<and> fst (traverse_attr_kwargs 2 ct0 (VType 0) (Some ''k'') (VTuple [VInt 1, VInt 2]) h0)
       = Inr [''a'' \<mapsto> 0, ''child'' \<mapsto> 3]
   \<and> h0 0 ''k'' = Some (Val (VInt 1)) \<and> py_in (VInt 1) [VInt 1, VInt 2]
   \<and> fst (traverse_attr_kwargs 2 ct0 (VType 0) (Some ''k'') (VList [VInt 1, VInt 2]) h0)
       = Inr [''child'' \<mapsto> 3]"
  by (simp add: traverse_eval)

theorem traverse_filter_witness:
  "child_ranked ct0 h0 rk0 \<and> rk0 0 < 2 \<and> VTuple [VInt 1, VInt 2] \<noteq> VNone
   \<and> traverse_attr_kwargs 2 ct0 (VType 0) (Some ''k'') (VTuple [VInt 1, VInt 2]) h0
     = (Inr [''a'' \<mapsto> 0, ''child'' \<mapsto> 3], h0(3 := (h0 3)(''child_attrs'' \<mapsto> Sub [''x'' \<mapsto> 4])))
   \<and> dom [''a'' \<mapsto> (0::nat), ''child'' \<mapsto> 3]
       = {attr. \<exists>a. (attr, Some a) \<in> set (ct0 0)
            \<and> ((\<exists>x. h0 a ''k'' = Some (Val x) \<and> py_in x (filter_values (VTuple [VInt 1, VInt 2])))
               \<or> ''child_cls'' \<in> dom (h0 a))}"
proof -
  have t: "traverse_attr_kwargs 2 ct0 (VType 0) (Some ''k'') (VTuple [VInt 1, VInt 2]) h0
     = (Inr [''a'' \<mapsto> 0, ''child'' \<mapsto> 3], h0(3 := (h0 3)(''child_attrs'' \<mapsto> Sub [''x'' \<mapsto> 4])))"
    by (simp add: traverse_eval)
  have f: "rk0 0 < 2" by (simp add: rk0_def)
  have n: "VTuple [VInt 1, VInt 2] \<noteq> VNone" by simp
  from traverse_filter [OF child_ranked_ct0 f n, of "''k''"]
  show ?thesis using t f n child_ranked_ct0 by auto
qed

text \<open>
  Claim C5 as stated fails: the traversal stores the mapping it built for the child class
  under \<^verbatim>\<open>child_attrs\<close> in the configuration of the member \<^verbatim>\<open>child\<close>, and its result
  refers to that configuration.
\<close>

theorem traversal_writes_child_attrs:
  "h0 3 ''child_attrs'' = None
   \<and> snd (traverse_attr_kwargs 2 ct0 (VType 0) None VNone h0) 3 ''child_attrs''
       = Some (Sub [''x'' \<mapsto> 4])
   \<and> fst (traverse_attr_kwargs 2 ct0 (VType 0) None VNone h0)
       = Inr [''a'' \<mapsto> 0, ''b'' \<mapsto> 1, ''c'' \<mapsto> 2, ''child'' \<mapsto> 3]"
  by (simp add: traverse_eval)

theorem traverse_keeps_configuration_witness:
  "''child_cls'' \<noteq> ''child_attrs''
   \<and> snd (traverse_attr_kwargs 2 ct0 (VType 0) None VNone h0) 3 ''child_cls'' = Some (Val (VType 1))
   \<and> ''child_cls'' \<notin> dom (h0 0)
   \<and> snd (traverse_attr_kwargs 2 ct0 (VType 0) None VNone h0) 0 = h0 0
   \<and> (''child'', Some 3) \<in> set (ct0 0)"
  using traverse_keeps_configuration [where k = "''child_cls''" and d = 2 and ct = ct0
      and cls = "VType 0" and key = None and v = VNone and h = h0 and a = 3 and c = 0
      and result = "[''a'' \<mapsto> 0, ''b'' \<mapsto> 1, ''c'' \<mapsto> 2, ''child'' \<mapsto> 3]"
      and attr = "''child''" and b = 3]
    traverse_keeps_configuration [where k = "''k''" and d = 2 and ct = ct0
      and cls = "VType 0" and key = None and v = VNone and h = h0 and a = 0 and c = 0
      and result = "[''a'' \<mapsto> 0, ''b'' \<mapsto> 1, ''c'' \<mapsto> 2, ''child'' \<mapsto> 3]"
      and attr = "''a''" and b = 0]
  by (simp add: traverse_eval)

section \<open>Properties of the accessor binder\<close>

lemma py_replace_absent:
  "old \<noteq> [] \<Longrightarrow> \<not> py_contains old s \<Longrightarrow> py_replace old new s = s"
  by (induction s) auto

lemma add_nb_methods_other:
  "\<forall>f \<in> set fs. method_name f \<noteq> n \<Longrightarrow> add_nb_methods mn fs cls n = cls n"
  by (induction fs arbitrary: cls) auto

lemma add_nb_methods_installed:
  "n \<in> method_name ` set fs \<Longrightarrow>
   \<exists>g \<in> set fs. method_name g = n
      \<and> add_nb_methods mn fs cls n = Some (NbMethod (make_nb_method mn g))"
proof (induction fs arbitrary: cls)
  case Nil
  then show ?case by simp
next
  case (Cons x fs)
  show ?case
  proof (cases "n \<in> method_name ` set fs")
    case True
    from Cons.IH[OF this, of "cls(method_name x \<mapsto> NbMethod (make_nb_method mn x))"]
    obtain g where g: "g \<in> set fs" "method_name g = n"
      "add_nb_methods mn fs (cls(method_name x \<mapsto> NbMethod (make_nb_method mn x))) n
         = Some (NbMethod (make_nb_method mn g))"
      by blast
    have "add_nb_methods mn (x # fs) cls n = Some (NbMethod (make_nb_method mn g))"
      using g(3) by simp
    then show ?thesis using g(1,2) by auto
  next
    case False
    then have x: "method_name x = n" using Cons.prems by auto
    have no: "\<forall>f \<in> set fs. method_name f \<noteq> n" using False by blast
    have "add_nb_methods mn fs (cls(method_name x \<mapsto> NbMethod (make_nb_method mn x))) n
        = Some (NbMethod (make_nb_method mn x))"
      using x by (simp add: add_nb_methods_other[OF no])
    then show ?thesis using x by simp
  qed
qed

lemma length_py_replace_le:
  "old \<noteq> [] \<Longrightarrow> length (py_replace old [] s) \<le> length s"
proof (induction old "[]::string" s rule: py_replace.induct)
  case (1 old)
  then show ?case by simp
next
  case (2 old c cs)
  then show ?case by (auto simp add: le_SucI intro: le_trans[OF _ diff_le_self] split: if_splits)
qed

lemma length_py_replace_less:
  "old \<noteq> [] \<Longrightarrow> py_contains old s \<Longrightarrow> length (py_replace old [] s) < length s"
proof (induction old "[]::string" s rule: py_replace.induct)
  case (1 old)
  then show ?case by simp
next
  case (2 old c cs)
  show ?case
  proof (cases "take (length old) (c # cs) = old")
    case True
    have "length (py_replace old [] (drop (length old) (c # cs))) \<le> length (drop (length old) (c # cs))"
      using 2(4) by (rule length_py_replace_le)
    also have "\<dots> < length (c # cs)" using 2(4) by (cases old) auto
    finally show ?thesis using True 2(4) by simp
  next
    case False
    then have "py_contains old cs" using 2(5) by simp
    from 2(3)[OF 2(4) False 2(4) this] show ?thesis using False 2(4) by simp
  qed
qed

lemma method_name_own:
  "(method_name f = nb_name f)
   = (\<not> py_contains ''_1d'' (nb_name f) \<and> \<not> py_contains ''_nb'' (nb_name f))"
proof (cases "py_contains ''_1d'' (nb_name f)")
  case True
  have "length (method_name f) \<le> length (py_replace ''_1d'' [] (nb_name f))"
    unfolding method_name_def by (rule length_py_replace_le) simp
  also have "\<dots> < length (nb_name f)" using True by (intro length_py_replace_less) simp_all
  finally show ?thesis using True by auto
next
  case n1: False
  then have a: "py_replace ''_1d'' [] (nb_name f) = nb_name f" by (simp add: py_replace_absent)
  show ?thesis
  proof (cases "py_contains ''_nb'' (nb_name f)")
    case True
    have "length (method_name f) < length (nb_name f)"
      unfolding method_name_def a using True by (intro length_py_replace_less) simp_all
    then show ?thesis using True by auto
  next
    case False
    then show ?thesis using n1 a by (simp add: method_name_def py_replace_absent)
  qed
qed

text \<open>
  Claim C9, as amended. For every function \<open>f\<close> passed to \<^verbatim>\<open>add_nb_methods\<close>, the decorated
  class has a method under the name of \<open>f\<close> with every \<^verbatim>\<open>_1d\<close> and then every \<^verbatim>\<open>_nb\<close>
  removed, wrapping one of the functions passed that yield this name; that name is the
  function's own name exactly when the name contains neither \<^verbatim>\<open>_1d\<close> nor \<^verbatim>\<open>_nb\<close>.
\<close>

theorem nb_method_installed_under_stripped_name:
  assumes "f \<in> set fs"
  shows "(\<exists>g \<in> set fs. method_name g = method_name f
            \<and> add_nb_methods mn fs cls (method_name f) = Some (NbMethod (make_nb_method mn g)))
       \<and> method_name f = py_replace ''_nb'' '''' (py_replace ''_1d'' '''' (nb_name f))
       \<and> ((method_name f = nb_name f)
            = (\<not> py_contains ''_1d'' (nb_name f) \<and> \<not> py_contains ''_nb'' (nb_name f)))"
proof -
  have "method_name f \<in> method_name ` set fs" using assms by simp
  from add_nb_methods_installed[OF this, of mn cls]
  show ?thesis using method_name_own[of f] by (simp add: method_name_def)
qed

text \<open>
  Claim C9 as stated fails: for \<^verbatim>\<open>rolling_mean_nb\<close> the decorated class has no attribute
  \<^verbatim>\<open>rolling_mean_nb\<close>; the method is installed as \<^verbatim>\<open>rolling_mean\<close>.
\<close>

theorem nb_method_not_under_own_name:
  "nb_name rolling_mean_nb = ''rolling_mean_nb''
   \<and> add_nb_methods None [rolling_mean_nb] Map.empty ''rolling_mean_nb'' = None
   \<and> add_nb_methods None [rolling_mean_nb] Map.empty ''rolling_mean''
       = Some (NbMethod (make_nb_method None rolling_mean_nb))"
  by (simp add: rolling_mean_nb_def method_name_def)

theorem nb_method_installed_under_stripped_name_witness:
  "rolling_mean_nb \<in> set [rolling_mean_nb, describe]
   \<and> method_name rolling_mean_nb = ''rolling_mean''
   \<and> add_nb_methods (Some ''nb'') [rolling_mean_nb, describe] Map.empty ''rolling_mean''
       = Some (NbMethod (make_nb_method (Some ''nb'') rolling_mean_nb))
   \<and> method_name describe = ''describe''
   \<and> add_nb_methods (Some ''nb'') [rolling_mean_nb, describe] Map.empty ''describe''
       = Some (NbMethod (make_nb_method (Some ''nb'') describe))"
  using nb_method_installed_under_stripped_name [of rolling_mean_nb "[rolling_mean_nb, describe]"
      "Some ''nb''" Map.empty]
    nb_method_installed_under_stripped_name [of describe "[rolling_mean_nb, describe]"
      "Some ''nb''" Map.empty]
  by (simp add: rolling_mean_nb_def describe_def method_name_def)

end
